theory Spec2Isabelle
  imports Complex_Main
begin

section \<open>The rotating knob widget\<close>

text \<open>
  The widget is \<^verbatim>\<open>RotatingKnob\<close> of package \<^verbatim>\<open>widget\<close> (the later of the two
  variants in the sources, the one that bisects the dead zone).

  Numbers: the fields are \<^verbatim>\<open>float64\<close> in Go. Two models stand side by side.
  The first part models them by \<^typ>\<open>real\<close> with exact \<open>+\<close>, \<open>-\<close>, \<open>*\<close>, \<open>/\<close>; it
  carries the properties that rest on comparisons and on the order of the effects
  only (clamping, the no-op on an equal value, the keys, the disabled handlers), and
  the division by a zero sweep, which it returns as a fault instead of HOL's
  \<open>x / 0 = 0\<close>. The second part (from ``binary64 arithmetic'' on) rounds every
  operation to the nearest \<^verbatim>\<open>float64\<close> (to the nearest \<^verbatim>\<open>float32\<close> for the
  coordinates of a position), as the code does; every property of a computed value is
  stated there.

  Effects: the callbacks \<^verbatim>\<open>OnChanged\<close>, \<^verbatim>\<open>OnChangeEnded\<close> and the repaint request
  \<^verbatim>\<open>Refresh\<close> are recorded, in order, in the field \<open>trace\<close>. A callback is a Go
  closure that may be nil; the model keeps whether it is set. Callbacks are assumed not
  to write to the knob.
\<close>

datatype event = Refresh | OnChanged real | OnChangeEnded real

record RotatingKnob =
  disabled :: bool
  Width :: real
  Height :: real
  Value :: real
  Min_k :: real
  Max_k :: real
  Step :: real
  StartAngle :: real
  EndAngle :: real
  Wrapping :: bool
  ShowTicks :: bool
  TickCount :: int
  hasOnChanged :: bool
  hasOnChangeEnded :: bool
  hovered :: bool
  focused :: bool
  trace :: "event list"

text \<open>\<^verbatim>\<open>NewRotatingKnob(min, max)\<close>: value at the midpoint, step 1 percent of the range,
  sweep from -135 to 135 degrees, eleven ticks, no callback, zero size.\<close>

definition NewRotatingKnob :: "real \<Rightarrow> real \<Rightarrow> RotatingKnob" where
  "NewRotatingKnob mn mx =
     \<lparr> disabled = False, Width = 0, Height = 0,
       Value = (mn + mx) / 2, Min_k = mn, Max_k = mx, Step = (mx - mn) / 100,
       StartAngle = - 135, EndAngle = 135,
       Wrapping = False, ShowTicks = True, TickCount = 11,
       hasOnChanged = False, hasOnChangeEnded = False,
       hovered = False, focused = False, trace = [] \<rparr>"

subsection \<open>SetValue\<close>

text \<open>The two wrap loops of \<^verbatim>\<open>SetValue\<close>:
  \<^verbatim>\<open>for value < k.Min { value += valueRange }\<close> and
  \<^verbatim>\<open>for value > k.Max { value -= valueRange }\<close>.
  A loop that does not end is the value \<open>None\<close>.\<close>

partial_function (option) wrap_up :: "real \<Rightarrow> real \<Rightarrow> real \<Rightarrow> real option" where
  "wrap_up valueRange lo v =
     (if v < lo then wrap_up valueRange lo (v + valueRange) else Some v)"

partial_function (option) wrap_down :: "real \<Rightarrow> real \<Rightarrow> real \<Rightarrow> real option" where
  "wrap_down valueRange hi v =
     (if v > hi then wrap_down valueRange hi (v - valueRange) else Some v)"

text \<open>The first half of \<^verbatim>\<open>SetValue\<close>: the value brought into the range, by clamping
  or by wrapping.\<close>

definition rangeValue :: "RotatingKnob \<Rightarrow> real \<Rightarrow> real option" where
  "rangeValue k v =
     (if \<not> Wrapping k then
        (let v1 = (if v < Min_k k then Min_k k else v);
             v2 = (if v1 > Max_k k then Max_k k else v1)
         in Some v2)
      else
        (let valueRange = Max_k k - Min_k k
         in Option.bind (wrap_up valueRange (Min_k k) v) (wrap_down valueRange (Max_k k))))"

definition fireOnChanged :: "RotatingKnob \<Rightarrow> RotatingKnob" where
  "fireOnChanged k =
     (if hasOnChanged k then k\<lparr>trace := trace k @ [OnChanged (Value k)]\<rparr> else k)"

definition fireOnChangeEnded :: "RotatingKnob \<Rightarrow> RotatingKnob" where
  "fireOnChangeEnded k =
     (if hasOnChangeEnded k then k\<lparr>trace := trace k @ [OnChangeEnded (Value k)]\<rparr> else k)"

definition SetValue :: "RotatingKnob \<Rightarrow> real \<Rightarrow> RotatingKnob option" where
  "SetValue k v =
     (case rangeValue k v of
        None \<Rightarrow> None
      | Some v' \<Rightarrow>
          if Value k = v' then Some k
          else Some (fireOnChanged (k\<lparr>Value := v', trace := trace k @ [Refresh]\<rparr>)))"

subsection \<open>Keyboard and scroll wheel\<close>

datatype KeyName =
  KeyUp | KeyRight | KeyDown | KeyLeft | KeyPageUp | KeyPageDown | KeyHome | KeyEnd | KeyOther

text \<open>\<^verbatim>\<open>TypedKey\<close>: every handled key calls \<^verbatim>\<open>SetValue\<close> and then
  \<^verbatim>\<open>OnChangeEnded\<close>; \<open>KeyOther\<close> stands for the keys the switch does not list.\<close>

definition TypedKey :: "RotatingKnob \<Rightarrow> KeyName \<Rightarrow> RotatingKnob option" where
  "TypedKey k key =
     (if disabled k then Some k
      else
        let step = (if Step k = 0 then (Max_k k - Min_k k) / 100 else Step k) in
        case key of
          KeyUp \<Rightarrow> map_option fireOnChangeEnded (SetValue k (Value k + step))
        | KeyRight \<Rightarrow> map_option fireOnChangeEnded (SetValue k (Value k + step))
        | KeyDown \<Rightarrow> map_option fireOnChangeEnded (SetValue k (Value k - step))
        | KeyLeft \<Rightarrow> map_option fireOnChangeEnded (SetValue k (Value k - step))
        | KeyPageUp \<Rightarrow> map_option fireOnChangeEnded (SetValue k (Value k + step * 10))
        | KeyPageDown \<Rightarrow> map_option fireOnChangeEnded (SetValue k (Value k - step * 10))
        | KeyHome \<Rightarrow> map_option fireOnChangeEnded (SetValue k (Min_k k))
        | KeyEnd \<Rightarrow> map_option fireOnChangeEnded (SetValue k (Max_k k))
        | KeyOther \<Rightarrow> Some k)"

text \<open>\<^verbatim>\<open>Scrolled\<close>: the argument is \<^verbatim>\<open>e.Scrolled.DY\<close>.\<close>

definition Scrolled :: "RotatingKnob \<Rightarrow> real \<Rightarrow> RotatingKnob option" where
  "Scrolled k dy =
     (if disabled k then Some k
      else
        let step = (if Step k = 0 then (Max_k k - Min_k k) / 100 else Step k) in
        map_option fireOnChangeEnded
          (if dy > 0 then SetValue k (Value k + step)
           else if dy < 0 then SetValue k (Value k - step)
           else Some k))"

text \<open>The effective step in the words of the specification: the step if it is nonzero,
  else one percent of the range.\<close>

definition effectiveStep :: "RotatingKnob \<Rightarrow> real" where
  "effectiveStep k = (if Step k \<noteq> 0 then Step k else (Max_k k - Min_k k) / 100)"

subsection \<open>From a pointer position to an angle\<close>

text \<open>
  \<^verbatim>\<open>math.Atan2\<close> distinguishes the two zeros of \<^verbatim>\<open>float64\<close>, and the knob calls it
  with \<^verbatim>\<open>-dy\<close>: Go's unary minus flips the sign bit, so the negation of a zero \<open>dy\<close>
  is the negative zero. The arguments of \<open>Atan2\<close> are therefore finite numbers with a
  signed zero: \<open>Fin 0\<close> is \<open>+0\<close> and \<open>NegZero\<close> is \<open>-0\<close>. Positions and sizes are
  reals here (a difference \<open>a - b\<close> of equal numbers is \<open>+0\<close>); the angle in
  \<^verbatim>\<open>float32\<close> and \<^verbatim>\<open>float64\<close>, with signed zeros in the position, is
  \<open>getAngleFromPoint_f64\<close> below.
\<close>

datatype float64 = Fin real | NegZero

fun val :: "float64 \<Rightarrow> real" where
  "val (Fin r) = r"
| "val NegZero = 0"

fun Signbit :: "float64 \<Rightarrow> bool" where
  "Signbit (Fin r) = (r < 0)"
| "Signbit NegZero = True"

fun neg :: "float64 \<Rightarrow> float64" where
  "neg (Fin r) = (if r = 0 then NegZero else Fin (- r))"
| "neg NegZero = Fin 0"

definition Copysign :: "real \<Rightarrow> float64 \<Rightarrow> real" where
  "Copysign m s = (if Signbit s then - \<bar>m\<bar> else \<bar>m\<bar>)"

text \<open>\<^verbatim>\<open>math.Atan2(y, x)\<close> of the Go library on finite arguments. Its special cases:
  \<^verbatim>\<open>Atan2(+-0, x>=+0) = +-0\<close>, \<^verbatim>\<open>Atan2(+-0, x<=-0) = +-Pi\<close> and
  \<^verbatim>\<open>Atan2(y, +-0) = +-Pi/2\<close> for a nonzero \<open>y\<close>, the sign being the sign of \<open>y\<close>;
  otherwise the quadrant of \<open>arctan (y / x)\<close>.\<close>

definition Atan2 :: "float64 \<Rightarrow> float64 \<Rightarrow> real" where
  "Atan2 y x =
     (if val y = 0 then
        (if val x \<ge> 0 \<and> \<not> Signbit x then Copysign 0 y else Copysign pi y)
      else if val x = 0 then Copysign (pi / 2) y
      else
        let q = arctan (val y / val x) in
        if val x < 0 then (if q \<le> 0 then q + pi else q - pi) else q)"

record Position =
  X :: real
  Y :: real

definition getAngleFromPoint :: "RotatingKnob \<Rightarrow> Position \<Rightarrow> real" where
  "getAngleFromPoint k pos =
     (let centerX = Width k / 2;
          centerY = Height k / 2;
          dx = X pos - centerX;
          dy = Y pos - centerY;
          radians = Atan2 (Fin dx) (neg (Fin dy));
          degrees = radians * 180 / pi
      in if degrees < 0 then degrees + 360 else degrees)"

subsection \<open>From an angle to a value\<close>

text \<open>The normalisation loops of \<^verbatim>\<open>updateValueFromAngle\<close>:
  \<^verbatim>\<open>for a < 0 { a += 360 }\<close> and \<^verbatim>\<open>for a >= 360 { a -= 360 }\<close>.\<close>

partial_function (option) addTurns :: "real \<Rightarrow> real option" where
  "addTurns a = (if a < 0 then addTurns (a + 360) else Some a)"

partial_function (option) subTurns :: "real \<Rightarrow> real option" where
  "subTurns a = (if a \<ge> 360 then subTurns (a - 360) else Some a)"

text \<open>\<^verbatim>\<open>math.Mod(x, y)\<close> for a nonzero \<open>y\<close>: the remainder with the sign of \<open>x\<close>.\<close>

definition math_Mod :: "real \<Rightarrow> real \<Rightarrow> real" where
  "math_Mod x y =
     x - y * real_of_int (if 0 \<le> x / y then \<lfloor>x / y\<rfloor> else \<lceil>x / y\<rceil>)"

text \<open>The start and end angles after the four loops, in the order of the source.\<close>

definition normalizedAngles :: "RotatingKnob \<Rightarrow> (real \<times> real) option" where
  "normalizedAngles k =
     Option.bind (addTurns (StartAngle k)) (\<lambda>s1.
     Option.bind (addTurns (EndAngle k)) (\<lambda>e1.
     Option.bind (subTurns s1) (\<lambda>startAngle.
     Option.bind (subTurns e1) (\<lambda>endAngle.
       Some (startAngle, endAngle)))))"

text \<open>The sweep, and the angle relative to the start after the dead-zone rule.\<close>

definition sweepOf :: "real \<Rightarrow> real \<Rightarrow> real" where
  "sweepOf startAngle endAngle =
     (let sweep = endAngle - startAngle in if sweep < 0 then sweep + 360 else sweep)"

definition relativeOf :: "bool \<Rightarrow> real \<Rightarrow> real \<Rightarrow> real \<Rightarrow> real" where
  "relativeOf wrapping startAngle sweep angle =
     (let r0 = angle - startAngle;
          relativeAngle = (if r0 < 0 then r0 + 360 else r0)
      in if \<not> wrapping \<and> relativeAngle > sweep then
           (let deadZone = 360 - sweep
            in if relativeAngle < sweep + deadZone / 2 then sweep else 0)
         else relativeAngle)"

text \<open>A division by a zero sweep gives NaN or an infinity in Go: the model stops there
  with a fault, since the value stored then is not a real number.\<close>

datatype fault = NonFinite

definition updateValueFromAngle :: "RotatingKnob \<Rightarrow> real \<Rightarrow> (fault + RotatingKnob) option" where
  "updateValueFromAngle k angle =
     Option.bind (normalizedAngles k) (\<lambda>(startAngle, endAngle).
       let sweep = sweepOf startAngle endAngle;
           relativeAngle = relativeOf (Wrapping k) startAngle sweep angle
       in if sweep = 0 then Some (Inl NonFinite)
          else
            let r0 = relativeAngle / sweep;
                ratio = (if r0 > 1 then math_Mod r0 1 else r0);
                v = Min_k k + ratio * (Max_k k - Min_k k)
            in map_option Inr (SetValue k v))"

subsection \<open>Pointer handlers\<close>

definition Dragged :: "RotatingKnob \<Rightarrow> Position \<Rightarrow> (fault + RotatingKnob) option" where
  "Dragged k pos =
     (if disabled k then Some (Inr k)
      else updateValueFromAngle k (getAngleFromPoint k pos))"

definition DragEnd :: "RotatingKnob \<Rightarrow> RotatingKnob" where
  "DragEnd k = fireOnChangeEnded k"

definition Tapped :: "RotatingKnob \<Rightarrow> Position \<Rightarrow> (fault + RotatingKnob) option" where
  "Tapped k pos =
     (if disabled k then Some (Inr k)
      else map_option (map_sum id fireOnChangeEnded)
             (updateValueFromAngle k (getAngleFromPoint k pos)))"

subsection \<open>The range invariant\<close>

definition inRange :: "RotatingKnob \<Rightarrow> bool" where
  "inRange k = (Min_k k \<le> Value k \<and> Value k \<le> Max_k k)"

subsection \<open>binary64 arithmetic\<close>

text \<open>
  A finite \<^verbatim>\<open>float64\<close> is \<open>m * 2 ^ q\<close> with an integer \<open>\<bar>m\<bar> < 2 ^ 53\<close> and
  \<open>- 1074 \<le> q \<le> 971\<close>; an arithmetic operation returns the exact result rounded to
  the nearest such number, ties to the even \<open>m\<close>, and an infinity when the rounded
  magnitude reaches \<open>2 ^ 1024\<close>.
\<close>

text \<open>\<open>\<lfloor>log\<^sub>2 n\<rfloor>\<close> for a positive natural number, and \<open>\<lfloor>log\<^sub>2 \<bar>x\<bar>\<rfloor>\<close> for a nonzero real.\<close>

fun ilog2_nat :: "nat \<Rightarrow> nat" where
  "ilog2_nat n = (if n < 2 then 0 else Suc (ilog2_nat (n div 2)))"

declare ilog2_nat.simps [simp del]

definition ilog2 :: "real \<Rightarrow> int" where
  "ilog2 x =
     (if \<bar>x\<bar> \<ge> 1 then int (ilog2_nat (nat \<lfloor>\<bar>x\<bar>\<rfloor>))
      else - int (ilog2_nat (nat \<lceil>1 / \<bar>x\<bar>\<rceil> - 1)) - 1)"

definition pow2 :: "int \<Rightarrow> real" where
  "pow2 e = (if e \<ge> 0 then 2 ^ nat e else 1 / 2 ^ nat (- e))"

definition roundToEven :: "real \<Rightarrow> int" where
  "roundToEven y =
     (let f = \<lfloor>y\<rfloor>; d = y - of_int f
      in if d < 1 / 2 then f else if d > 1 / 2 then f + 1
         else if even f then f else f + 1)"

text \<open>The \<^verbatim>\<open>float64\<close> nearest to a real; \<open>None\<close> is an overflow to an infinity.\<close>

definition f64_round :: "real \<Rightarrow> real option" where
  "f64_round x =
     (if x = 0 then Some 0
      else
        let q = max (ilog2 x - 52) (- 1074);
            r = of_int (roundToEven (x / pow2 q)) * pow2 q
        in if \<bar>r\<bar> \<ge> 2 ^ 1024 then None else Some r)"

definition is_f64 :: "real \<Rightarrow> bool" where
  "is_f64 x = (f64_round x = Some x)"

text \<open>The rounded number without the test for overflow.\<close>

definition f64_nearest :: "real \<Rightarrow> real" where
  "f64_nearest x =
     (let q = max (ilog2 x - 52) (- 1074) in of_int (roundToEven (x / pow2 q)) * pow2 q)"

text \<open>The operations of \<^verbatim>\<open>float64\<close> on finite operands. \<open>None\<close> is a result that
  is not a finite number: an infinity, or the NaN of a division of zero by zero.\<close>

definition f64_add :: "real \<Rightarrow> real \<Rightarrow> real option" where
  "f64_add a b = f64_round (a + b)"

definition f64_sub :: "real \<Rightarrow> real \<Rightarrow> real option" where
  "f64_sub a b = f64_round (a - b)"

definition f64_mul :: "real \<Rightarrow> real \<Rightarrow> real option" where
  "f64_mul a b = f64_round (a * b)"

definition f64_div :: "real \<Rightarrow> real \<Rightarrow> real option" where
  "f64_div a b = (if b = 0 then None else f64_round (a / b))"

text \<open>A computation in the \<^verbatim>\<open>float64\<close> model ends with a result, ends with the
  fault \<open>NonFinite\<close> (an infinity or NaN came up; what the code stores then is outside
  the model), or does not end (\<open>None\<close>).\<close>

definition num :: "'a option \<Rightarrow> (fault + 'a) option" where
  "num x = (case x of None \<Rightarrow> Some (Inl NonFinite) | Some r \<Rightarrow> Some (Inr r))"

definition andThen ::
    "(fault + 'a) option \<Rightarrow> ('a \<Rightarrow> (fault + 'b) option) \<Rightarrow> (fault + 'b) option" where
  "andThen m f = (case m of None \<Rightarrow> None | Some (Inl e) \<Rightarrow> Some (Inl e) | Some (Inr x) \<Rightarrow> f x)"

subsection \<open>SetValue in binary64\<close>

text \<open>The wrap loops with \<^verbatim>\<open>float64\<close> addition and subtraction. The range is
  \<open>None\<close> when \<open>Max - Min\<close> overflowed; it is looked at only when a loop runs.\<close>

partial_function (option) wrap_up_f64 ::
    "real option \<Rightarrow> real \<Rightarrow> real \<Rightarrow> (fault + real) option" where
  "wrap_up_f64 valueRange lo v =
     (if v < lo then
        (case Option.bind valueRange (f64_add v) of
           None \<Rightarrow> Some (Inl NonFinite)
         | Some v' \<Rightarrow> wrap_up_f64 valueRange lo v')
      else Some (Inr v))"

partial_function (option) wrap_down_f64 ::
    "real option \<Rightarrow> real \<Rightarrow> real \<Rightarrow> (fault + real) option" where
  "wrap_down_f64 valueRange hi v =
     (if v > hi then
        (case Option.bind valueRange (f64_sub v) of
           None \<Rightarrow> Some (Inl NonFinite)
         | Some v' \<Rightarrow> wrap_down_f64 valueRange hi v')
      else Some (Inr v))"

text \<open>\<open>SetValue\<close> on \<^verbatim>\<open>float64\<close> numbers: the clamping branch only compares, so it is
  the \<open>SetValue\<close> above; the wrapping branch rounds \<open>Max - Min\<close> and every step of the
  loops.\<close>

definition SetValue_f64 :: "RotatingKnob \<Rightarrow> real \<Rightarrow> (fault + RotatingKnob) option" where
  "SetValue_f64 k v =
     (if \<not> Wrapping k then map_option Inr (SetValue k v)
      else
        let valueRange = f64_sub (Max_k k) (Min_k k) in
        andThen (wrap_up_f64 valueRange (Min_k k) v) (\<lambda>v1.
        andThen (wrap_down_f64 valueRange (Max_k k) v1) (\<lambda>v2.
          if Value k = v2 then Some (Inr k)
          else Some (Inr (fireOnChanged (k\<lparr>Value := v2, trace := trace k @ [Refresh]\<rparr>))))))"

subsection \<open>updateValueFromAngle in binary64\<close>

text \<open>The normalisation loops, \<^verbatim>\<open>for a < 0 { a += 360 }\<close> and
  \<^verbatim>\<open>for a >= 360 { a -= 360 }\<close>, with rounded sums.\<close>

partial_function (option) addTurns_f64 :: "real \<Rightarrow> (fault + real) option" where
  "addTurns_f64 a =
     (if a < 0 then
        (case f64_add a 360 of
           None \<Rightarrow> Some (Inl NonFinite)
         | Some a' \<Rightarrow> addTurns_f64 a')
      else Some (Inr a))"

partial_function (option) subTurns_f64 :: "real \<Rightarrow> (fault + real) option" where
  "subTurns_f64 a =
     (if a \<ge> 360 then
        (case f64_sub a 360 of
           None \<Rightarrow> Some (Inl NonFinite)
         | Some a' \<Rightarrow> subTurns_f64 a')
      else Some (Inr a))"

definition normalizedAngles_f64 :: "RotatingKnob \<Rightarrow> (fault + real \<times> real) option" where
  "normalizedAngles_f64 k =
     andThen (addTurns_f64 (StartAngle k)) (\<lambda>s1.
     andThen (addTurns_f64 (EndAngle k)) (\<lambda>e1.
     andThen (subTurns_f64 s1) (\<lambda>startAngle.
     andThen (subTurns_f64 e1) (\<lambda>endAngle.
       Some (Inr (startAngle, endAngle))))))"

text \<open>\<^verbatim>\<open>updateValueFromAngle\<close>, one rounding for each operation of the source, in
  its order. \<^verbatim>\<open>math.Mod\<close> is exact in \<^verbatim>\<open>float64\<close>. The product and the sum of
  \<^verbatim>\<open>k.Min + ratio*(k.Max-k.Min)\<close> are rounded one after the other (a compiler
  that fuses them into one rounding gives the same value wherever a theorem below
  names one: there the product is exact or \<open>Min\<close> is 0).\<close>

definition updateValueFromAngle_f64 ::
    "RotatingKnob \<Rightarrow> real \<Rightarrow> (fault + RotatingKnob) option" where
  "updateValueFromAngle_f64 k angle =
     andThen (normalizedAngles_f64 k) (\<lambda>(startAngle, endAngle).
     andThen (num (f64_sub endAngle startAngle)) (\<lambda>s0.
     andThen (if s0 < 0 then num (f64_add s0 360) else Some (Inr s0)) (\<lambda>sweep.
     andThen (num (f64_sub angle startAngle)) (\<lambda>r0.
     andThen (if r0 < 0 then num (f64_add r0 360) else Some (Inr r0)) (\<lambda>r1.
     andThen (if \<not> Wrapping k \<and> r1 > sweep then
                andThen (num (f64_sub 360 sweep)) (\<lambda>deadZone.
                andThen (num (f64_div deadZone 2)) (\<lambda>half.
                andThen (num (f64_add sweep half)) (\<lambda>bound.
                  Some (Inr (if r1 < bound then sweep else 0)))))
              else Some (Inr r1)) (\<lambda>relativeAngle.
     andThen (num (f64_div relativeAngle sweep)) (\<lambda>r.
     andThen (num (f64_sub (Max_k k) (Min_k k))) (\<lambda>valueRange.
     andThen (num (f64_mul (if r > 1 then math_Mod r 1 else r) valueRange)) (\<lambda>p.
     andThen (num (f64_add (Min_k k) p)) (\<lambda>v.
       SetValue_f64 k v))))))))))"

subsection \<open>getAngleFromPoint in binary32 and binary64\<close>

text \<open>
  The coordinates of a \<^verbatim>\<open>fyne.Position\<close> and of a \<^verbatim>\<open>fyne.Size\<close> are \<^verbatim>\<open>float32\<close>
  numbers: the centre and the differences \<open>dx\<close>, \<open>dy\<close> are computed in \<^verbatim>\<open>float32\<close>,
  converted to \<^verbatim>\<open>float64\<close> (a conversion that changes nothing) and handed to
  \<^verbatim>\<open>math.Atan2\<close>; the rest is \<^verbatim>\<open>float64\<close>. A number of either format is a finite
  number with a signed zero, as above: \<open>Fin 0\<close> is \<open>+0\<close> and \<open>NegZero\<close> is \<open>-0\<close>.
  The width and the height of the knob are the reals of the record; a zero there is
  \<open>+0\<close>.
\<close>

text \<open>The \<^verbatim>\<open>float32\<close> nearest to a real: 24 bits, the smallest step \<open>2 ^ - 149\<close>,
  overflow from \<open>2 ^ 128\<close> on.\<close>

definition f32_round :: "real \<Rightarrow> real option" where
  "f32_round x =
     (if x = 0 then Some 0
      else
        let q = max (ilog2 x - 23) (- 149);
            r = of_int (roundToEven (x / pow2 q)) * pow2 q
        in if \<bar>r\<bar> \<ge> 2 ^ 128 then None else Some r)"

text \<open>A result that rounds to zero keeps the sign of the exact result.\<close>

definition signedOf :: "real \<Rightarrow> real \<Rightarrow> float64" where
  "signedOf exact r = (if r = 0 \<and> exact < 0 then NegZero else Fin r)"

text \<open>\<^verbatim>\<open>size.Width / 2\<close> in \<^verbatim>\<open>float32\<close>.\<close>

definition f32_half :: "real \<Rightarrow> float64 option" where
  "f32_half w = map_option (signedOf (w / 2)) (f32_round (w / 2))"

text \<open>\<^verbatim>\<open>a - b\<close> in \<^verbatim>\<open>float32\<close>. A difference of two equal numbers is \<open>+0\<close>, except
  that \<open>(-0) - (+0)\<close> is \<open>-0\<close>.\<close>

definition f32_sub :: "float64 \<Rightarrow> float64 \<Rightarrow> float64 option" where
  "f32_sub a b =
     (if val a = val b then Some (if a = NegZero \<and> b = Fin 0 then NegZero else Fin 0)
      else map_option (signedOf (val a - val b)) (f32_round (val a - val b)))"

record Position32 =
  X32 :: float64
  Y32 :: float64

text \<open>\<^verbatim>\<open>math.Pi\<close> as a \<^verbatim>\<open>float64\<close>: 3.141592653589793.\<close>

definition pi_f64 :: real where
  "pi_f64 = 884279719003555 / 2 ^ 48"

text \<open>
  \<^verbatim>\<open>math.Atan2(y, x)\<close> on finite arguments, as the library has it: the special cases
  first, then \<^verbatim>\<open>q := Atan(y / x)\<close> and the quadrant, \<^verbatim>\<open>q + Pi\<close> or \<^verbatim>\<open>q - Pi\<close> for a
  negative \<open>x\<close>. The arctangent of the library, \<^verbatim>\<open>math.Atan\<close> on a finite nonzero
  \<^verbatim>\<open>float64\<close>, is the parameter \<open>atan\<close>: it is a polynomial approximation of the
  library, not part of the widget. \<^verbatim>\<open>Atan\<close> of a zero is that zero, and of a
  quotient that overflowed to an infinity it is \<open>Pi / 2\<close> with the sign of the
  quotient.
\<close>

definition Atan2_f64 :: "(real \<Rightarrow> real) \<Rightarrow> float64 \<Rightarrow> float64 \<Rightarrow> (fault + real) option" where
  "Atan2_f64 atan y x =
     (if val y = 0 then
        Some (Inr (if val x \<ge> 0 \<and> \<not> Signbit x then Copysign 0 y else Copysign pi_f64 y))
      else if val x = 0 then Some (Inr (Copysign (pi_f64 / 2) y))
      else
        let q = (case f64_div (val y) (val x) of
                   None \<Rightarrow> if val y / val x < 0 then - (pi_f64 / 2) else pi_f64 / 2
                 | Some z \<Rightarrow> if z = 0 then 0 else atan z)
        in if val x < 0 then
             (if q \<le> 0 then num (f64_add q pi_f64) else num (f64_sub q pi_f64))
           else Some (Inr q))"

text \<open>\<^verbatim>\<open>getAngleFromPoint\<close>, one rounding for each operation of the source. A
  difference that overflows \<^verbatim>\<open>float32\<close> is the fault \<open>NonFinite\<close>.\<close>

definition getAngleFromPoint_f64 ::
    "(real \<Rightarrow> real) \<Rightarrow> RotatingKnob \<Rightarrow> Position32 \<Rightarrow> (fault + real) option" where
  "getAngleFromPoint_f64 atan k pos =
     andThen (num (f32_half (Width k))) (\<lambda>centerX.
     andThen (num (f32_half (Height k))) (\<lambda>centerY.
     andThen (num (f32_sub (X32 pos) centerX)) (\<lambda>dx.
     andThen (num (f32_sub (Y32 pos) centerY)) (\<lambda>dy.
     andThen (Atan2_f64 atan dx (neg dy)) (\<lambda>radians.
     andThen (num (f64_mul radians 180)) (\<lambda>d0.
     andThen (num (f64_div d0 pi_f64)) (\<lambda>degrees.
       if degrees < 0 then num (f64_add degrees 360) else Some (Inr degrees))))))))"

text \<open>The value a call leaves in the knob, when it returns without a fault.\<close>

definition valueAfter :: "(fault + RotatingKnob) option \<Rightarrow> real option" where
  "valueAfter r = (case r of Some (Inr k') \<Rightarrow> Some (Value k') | _ \<Rightarrow> None)"

section \<open>Properties of SetValue\<close>

lemma rangeValue_clamp:
  assumes "\<not> Wrapping k"
  shows "rangeValue k v =
     Some (if (if v < Min_k k then Min_k k else v) > Max_k k then Max_k k
           else if v < Min_k k then Min_k k else v)"
  using assms by (simp add: rangeValue_def Let_def)

lemma rangeValue_inside:
  assumes "Min_k k \<le> v" and "v \<le> Max_k k"
  shows "rangeValue k v = Some v"
proof (cases "Wrapping k")
  case False
  then show ?thesis using assms by (simp add: rangeValue_def Let_def)
next
  case True
  have "wrap_up (Max_k k - Min_k k) (Min_k k) v = Some v"
    using assms(1) by (subst wrap_up.simps) simp
  moreover have "wrap_down (Max_k k - Min_k k) (Max_k k) v = Some v"
    using assms(2) by (subst wrap_down.simps) simp
  ultimately show ?thesis using True by (simp add: rangeValue_def Let_def)
qed

text \<open>Whenever the value can be brought into the range, \<open>SetValue\<close> returns, stores
  it, and touches nothing but the value and the trace.\<close>

lemma SetValue_stores:
  assumes "rangeValue k v = Some v'"
  shows "\<exists>k'. SetValue k v = Some k' \<and> Value k' = v' \<and> Min_k k' = Min_k k
           \<and> Max_k k' = Max_k k
           \<and> trace k' = trace k @ (if Value k = v' then []
                 else Refresh # (if hasOnChanged k then [OnChanged v'] else []))"
  using assms by (simp add: SetValue_def fireOnChanged_def)

lemma SetValue_frame:
  assumes "SetValue k v = Some k'"
  shows "k' = k\<lparr>Value := Value k', trace := trace k'\<rparr>"
  using assms
  by (auto simp: SetValue_def fireOnChanged_def split: option.splits if_splits)

lemma fireOnChangeEnded_fields [simp]:
  "Value (fireOnChangeEnded k) = Value k"
  "Min_k (fireOnChangeEnded k) = Min_k k"
  "Max_k (fireOnChangeEnded k) = Max_k k"
  "trace (fireOnChangeEnded k) =
     trace k @ (if hasOnChangeEnded k then [OnChangeEnded (Value k)] else [])"
  by (simp_all add: fireOnChangeEnded_def)

section \<open>The claims about SetValue\<close>

text \<open>
  C2. Without wrapping, \<open>SetValue v\<close> stores the clamp of \<open>v\<close> into the range: the
  minimum when \<open>v\<close> is below it, the maximum when \<open>v\<close> is above it, and \<open>v\<close> itself
  otherwise. The range is a range, \<open>Min \<le> Max\<close>, as the data model of the
  specification has it. The call always returns.
\<close>

theorem SetValue_clamps:
  assumes "\<not> Wrapping k" and "Min_k k \<le> Max_k k"
  shows "\<exists>k'. SetValue k v = Some k' \<and>
           Value k' = (if v < Min_k k then Min_k k else if v > Max_k k then Max_k k else v)"
proof -
  have "rangeValue k v =
      Some (if v < Min_k k then Min_k k else if v > Max_k k then Max_k k else v)"
    using assms by (simp add: rangeValue_clamp)
  from SetValue_stores[OF this] show ?thesis by blast
qed

theorem SetValue_clamps_witness:
  "\<not> Wrapping (NewRotatingKnob 0 100) \<and>
   Min_k (NewRotatingKnob 0 100) \<le> Max_k (NewRotatingKnob 0 100) \<and>
   (\<exists>k'. SetValue (NewRotatingKnob 0 100) 150 = Some k' \<and> Value k' = 100) \<and>
   (\<exists>k'. SetValue (NewRotatingKnob 0 100) (- 10) = Some k' \<and> Value k' = 0) \<and>
   (\<exists>k'. SetValue (NewRotatingKnob 0 100) 75 = Some k' \<and> Value k' = 75)"
proof -
  have w: "\<not> Wrapping (NewRotatingKnob 0 100)"
    and r: "Min_k (NewRotatingKnob 0 100) \<le> Max_k (NewRotatingKnob 0 100)"
    by (simp_all add: NewRotatingKnob_def)
  have m: "Min_k (NewRotatingKnob 0 100) = 0" "Max_k (NewRotatingKnob 0 100) = 100"
    by (simp_all add: NewRotatingKnob_def)
  show ?thesis
    using w r SetValue_clamps[OF w r, of 150] SetValue_clamps[OF w r, of "- 10"]
      SetValue_clamps[OF w r, of 75]
    by (simp add: m)
qed



section \<open>The claims about the handlers\<close>

lemma SetValue_trace:
  assumes "SetValue k v = Some k1"
  shows "trace k1 = trace k @ (if Value k1 = Value k then []
            else Refresh # (if hasOnChanged k then [OnChanged (Value k1)] else []))"
    and "hasOnChangeEnded k1 = hasOnChangeEnded k"
  using assms
  by (auto simp: SetValue_def fireOnChanged_def split: option.splits if_splits)

lemma setThenEnd_trace:
  assumes "map_option fireOnChangeEnded (SetValue k v) = Some k'"
  shows "trace k' = trace k
           @ (if Value k' = Value k then []
              else Refresh # (if hasOnChanged k then [OnChanged (Value k')] else []))
           @ (if hasOnChangeEnded k then [OnChangeEnded (Value k')] else [])"
proof -
  from assms obtain k1 where k1: "SetValue k v = Some k1" "k' = fireOnChangeEnded k1"
    by auto
  show ?thesis
    using SetValue_trace[OF k1(1)] by (simp add: k1(2))
qed

text \<open>
  C7. On a knob that is not disabled, \<open>TypedKey\<close> works with the effective step (the
  step if it is nonzero, else one percent of the range): Up and Right call
  \<open>SetValue (Value + step)\<close>, Down and Left \<open>SetValue (Value - step)\<close>, PageUp and
  PageDown \<open>SetValue (Value \<plusminus> 10 * step)\<close>, Home \<open>SetValue Min\<close> and End
  \<open>SetValue Max\<close>, each followed by \<open>OnChangeEnded\<close>. So the trace of a handled key
  grows by the repaint and \<open>OnChanged\<close> when the value changed, and then by
  \<open>OnChangeEnded\<close>, with nothing in between.
\<close>

theorem TypedKey_steps:
  assumes "\<not> disabled k"
  shows "TypedKey k KeyUp = map_option fireOnChangeEnded (SetValue k (Value k + effectiveStep k)) \<and>
         TypedKey k KeyRight = map_option fireOnChangeEnded (SetValue k (Value k + effectiveStep k)) \<and>
         TypedKey k KeyDown = map_option fireOnChangeEnded (SetValue k (Value k - effectiveStep k)) \<and>
         TypedKey k KeyLeft = map_option fireOnChangeEnded (SetValue k (Value k - effectiveStep k)) \<and>
         TypedKey k KeyPageUp =
           map_option fireOnChangeEnded (SetValue k (Value k + 10 * effectiveStep k)) \<and>
         TypedKey k KeyPageDown =
           map_option fireOnChangeEnded (SetValue k (Value k - 10 * effectiveStep k)) \<and>
         TypedKey k KeyHome = map_option fireOnChangeEnded (SetValue k (Min_k k)) \<and>
         TypedKey k KeyEnd = map_option fireOnChangeEnded (SetValue k (Max_k k)) \<and>
         (\<forall>key k'. key \<noteq> KeyOther \<and> TypedKey k key = Some k' \<longrightarrow>
            trace k' = trace k
              @ (if Value k' = Value k then []
                 else Refresh # (if hasOnChanged k then [OnChanged (Value k')] else []))
              @ (if hasOnChangeEnded k then [OnChangeEnded (Value k')] else []))"
proof -
  have keys: "TypedKey k KeyUp = map_option fireOnChangeEnded (SetValue k (Value k + effectiveStep k))"
    "TypedKey k KeyRight = map_option fireOnChangeEnded (SetValue k (Value k + effectiveStep k))"
    "TypedKey k KeyDown = map_option fireOnChangeEnded (SetValue k (Value k - effectiveStep k))"
    "TypedKey k KeyLeft = map_option fireOnChangeEnded (SetValue k (Value k - effectiveStep k))"
    "TypedKey k KeyPageUp =
       map_option fireOnChangeEnded (SetValue k (Value k + 10 * effectiveStep k))"
    "TypedKey k KeyPageDown =
       map_option fireOnChangeEnded (SetValue k (Value k - 10 * effectiveStep k))"
    "TypedKey k KeyHome = map_option fireOnChangeEnded (SetValue k (Min_k k))"
    "TypedKey k KeyEnd = map_option fireOnChangeEnded (SetValue k (Max_k k))"
    using assms by (simp_all add: TypedKey_def effectiveStep_def Let_def mult.commute)
  have tr: "trace k' = trace k
              @ (if Value k' = Value k then []
                 else Refresh # (if hasOnChanged k then [OnChanged (Value k')] else []))
              @ (if hasOnChangeEnded k then [OnChangeEnded (Value k')] else [])"
    if "key \<noteq> KeyOther \<and> TypedKey k key = Some k'" for key k'
  proof -
    from that keys obtain v where "map_option fireOnChangeEnded (SetValue k v) = Some k'"
      by (cases key) auto
    then show ?thesis by (rule setThenEnd_trace)
  qed
  show ?thesis
    using keys tr by blast
qed

theorem TypedKey_steps_witness:
  "\<not> disabled ((NewRotatingKnob 0 100)\<lparr>Step := 10, hasOnChanged := True, hasOnChangeEnded := True\<rparr>) \<and>
   KeyUp \<noteq> KeyOther \<and>
   (\<exists>k'. TypedKey ((NewRotatingKnob 0 100)\<lparr>Step := 10, hasOnChanged := True,
              hasOnChangeEnded := True\<rparr>) KeyUp = Some k' \<and>
      Value k' = 60 \<and> trace k' = [Refresh, OnChanged 60, OnChangeEnded 60])"
proof -
  define K where
    "K = (NewRotatingKnob 0 100)\<lparr>Step := 10, hasOnChanged := True, hasOnChangeEnded := True\<rparr>"
  have d: "\<not> disabled K" by (simp add: K_def NewRotatingKnob_def)
  have up: "TypedKey K KeyUp = map_option fireOnChangeEnded (SetValue K (Value K + effectiveStep K))"
    using TypedKey_steps[OF d] by blast
  have "SetValue K (Value K + effectiveStep K)
          = Some (K\<lparr>Value := 60, trace := [Refresh, OnChanged 60]\<rparr>)"
    by (simp add: K_def NewRotatingKnob_def effectiveStep_def SetValue_def rangeValue_def
        fireOnChanged_def)
  with up have "TypedKey K KeyUp
      = Some (fireOnChangeEnded (K\<lparr>Value := 60, trace := [Refresh, OnChanged 60]\<rparr>))"
    by simp
  then have "\<exists>k'. TypedKey K KeyUp = Some k' \<and> Value k' = 60
      \<and> trace k' = [Refresh, OnChanged 60, OnChangeEnded 60]"
    by (simp add: K_def NewRotatingKnob_def)
  then show ?thesis
    using d unfolding K_def by simp
qed

text \<open>
  C10. On a disabled knob the handlers \<open>Dragged\<close>, \<open>Tapped\<close>, \<open>TypedKey\<close> and
  \<open>Scrolled\<close> return the knob as it was: the value, the trace of callbacks and every
  other field are unchanged.
\<close>

theorem disabled_handlers_do_nothing:
  assumes "disabled k"
  shows "Dragged k pos = Some (Inr k) \<and> Tapped k pos = Some (Inr k) \<and>
         TypedKey k key = Some k \<and> Scrolled k dy = Some k"
  using assms by (simp add: Dragged_def Tapped_def TypedKey_def Scrolled_def)

theorem disabled_handlers_do_nothing_witness:
  "disabled ((NewRotatingKnob 0 100)\<lparr>disabled := True, hasOnChanged := True\<rparr>) \<and>
   Dragged ((NewRotatingKnob 0 100)\<lparr>disabled := True, hasOnChanged := True\<rparr>) \<lparr>X = 30, Y = 30\<rparr>
     = Some (Inr ((NewRotatingKnob 0 100)\<lparr>disabled := True, hasOnChanged := True\<rparr>)) \<and>
   Tapped ((NewRotatingKnob 0 100)\<lparr>disabled := True, hasOnChanged := True\<rparr>) \<lparr>X = 30, Y = 30\<rparr>
     = Some (Inr ((NewRotatingKnob 0 100)\<lparr>disabled := True, hasOnChanged := True\<rparr>)) \<and>
   TypedKey ((NewRotatingKnob 0 100)\<lparr>disabled := True, hasOnChanged := True\<rparr>) KeyUp
     = Some ((NewRotatingKnob 0 100)\<lparr>disabled := True, hasOnChanged := True\<rparr>) \<and>
   Scrolled ((NewRotatingKnob 0 100)\<lparr>disabled := True, hasOnChanged := True\<rparr>) 1
     = Some ((NewRotatingKnob 0 100)\<lparr>disabled := True, hasOnChanged := True\<rparr>)"
proof -
  define K where "K = (NewRotatingKnob 0 100)\<lparr>disabled := True, hasOnChanged := True\<rparr>"
  have d: "disabled K" by (simp add: K_def NewRotatingKnob_def)
  show ?thesis
    using d disabled_handlers_do_nothing[OF d, of "\<lparr>X = 30, Y = 30\<rparr>" KeyUp 1]
    unfolding K_def by simp
qed

section \<open>The zero sweep\<close>

text \<open>
  C8. Every mutating operation is to keep \<open>Min \<le> Value \<le> Max\<close>, given \<open>Min < Max\<close>
  and a value in the range before the call. \<open>updateValueFromAngle\<close> breaks this on a
  knob whose start and end angles coincide after normalisation, here 0 and 360 (or 0
  and 0): the sweep is 0, the ratio is \<open>0 / 0\<close>, and Go stores the NaN it gets (every comparison
  of \<open>SetValue\<close> with NaN is false). The renderer of the same widget takes such a
  sweep for a full circle (\<^verbatim>\<open>if sweep <= 0 { sweep += 360 }\<close> in \<^verbatim>\<open>Layout\<close>), while
  \<open>updateValueFromAngle\<close> tests \<^verbatim>\<open>sweep < 0\<close> only and divides by the zero.
\<close>

theorem zero_sweep_breaks_range:
  "Min_k ((NewRotatingKnob 0 100)\<lparr>StartAngle := 0, EndAngle := 360\<rparr>)
     < Max_k ((NewRotatingKnob 0 100)\<lparr>StartAngle := 0, EndAngle := 360\<rparr>) \<and>
   inRange ((NewRotatingKnob 0 100)\<lparr>StartAngle := 0, EndAngle := 360\<rparr>) \<and>
   updateValueFromAngle ((NewRotatingKnob 0 100)\<lparr>StartAngle := 0, EndAngle := 360\<rparr>) 90
     = Some (Inl NonFinite) \<and>
   \<not> (\<exists>k'. updateValueFromAngle ((NewRotatingKnob 0 100)\<lparr>StartAngle := 0, EndAngle := 360\<rparr>) 90
          = Some (Inr k') \<and> inRange k') \<and>
   updateValueFromAngle ((NewRotatingKnob 0 100)\<lparr>StartAngle := 0, EndAngle := 0\<rparr>) 90
     = Some (Inl NonFinite)"
  by (simp add: updateValueFromAngle_def normalizedAngles_def NewRotatingKnob_def inRange_def
      addTurns.simps subTurns.simps sweepOf_def)

section \<open>Properties of binary64 rounding\<close>

lemma ilog2_nat_bounds:
  "0 < n \<Longrightarrow> 2 ^ ilog2_nat n \<le> n \<and> n < 2 ^ Suc (ilog2_nat n)"
proof (induction n rule: ilog2_nat.induct)
  case (1 n)
  show ?case
  proof (cases "n < 2")
    case True
    with 1(2) show ?thesis by (subst (1 2) ilog2_nat.simps) simp
  next
    case False
    then have "0 < n div 2" by simp
    with 1(1)[OF False] have "2 ^ ilog2_nat (n div 2) \<le> n div 2"
      and "n div 2 < 2 ^ Suc (ilog2_nat (n div 2))" by simp_all
    then show ?thesis
      using False by (subst (1 2) ilog2_nat.simps) (simp, linarith)
  qed
qed

lemma f64_round_examples:
  "f64_round 100 = Some 100"
  "f64_round (1 / 2) = Some (1 / 2)"
  "f64_round (2 ^ 53 + 1) = Some (2 ^ 53)"
  "f64_round (2 ^ 53 + 3) = Some (2 ^ 53 + 4)"
  "f64_round (1 / 10) = Some (3602879701896397 / 2 ^ 55)"
  by (simp_all add: f64_round_def ilog2_def ilog2_nat.simps pow2_def roundToEven_def Let_def)

text \<open>The rounding function does what its name says: \<open>ilog2\<close> is the binary exponent,
  and the result is within half a unit in the last place of the argument.\<close>

lemma pow2_pos: "0 < pow2 e"
  by (simp add: pow2_def)

lemma ilog2_bounds:
  assumes "x \<noteq> 0"
  shows "pow2 (ilog2 x) \<le> \<bar>x\<bar> \<and> \<bar>x\<bar> < pow2 (ilog2 x + 1)"
proof (cases "\<bar>x\<bar> \<ge> 1")
  case True
  define n where "n = nat \<lfloor>\<bar>x\<bar>\<rfloor>"
  have n: "0 < n" "real n \<le> \<bar>x\<bar>" "\<bar>x\<bar> < real n + 1"
    using True by (simp_all add: n_def) (linarith+)?
  from ilog2_nat_bounds[OF n(1)]
  have b: "2 ^ ilog2_nat n \<le> n" "n + 1 \<le> 2 ^ Suc (ilog2_nat n)" by simp_all
  have "real (2 ^ ilog2_nat n) \<le> real n"
    using b(1) by (simp only: of_nat_le_iff)
  then have l: "(2::real) ^ ilog2_nat n \<le> real n" by simp
  have "real (n + 1) \<le> real (2 ^ Suc (ilog2_nat n))"
    using b(2) by (simp only: of_nat_le_iff)
  then have u: "real n + 1 \<le> (2::real) ^ Suc (ilog2_nat n)" by simp
  have A: "(2::real) ^ ilog2_nat n \<le> \<bar>x\<bar>" using l n(2) by linarith
  have B: "\<bar>x\<bar> < (2::real) ^ Suc (ilog2_nat n)" using u n(3) by linarith
  have e: "ilog2 x = int (ilog2_nat n)"
    using True by (simp add: ilog2_def n_def)
  have pw: "pow2 (ilog2 x) = 2 ^ ilog2_nat n" "pow2 (ilog2 x + 1) = 2 ^ Suc (ilog2_nat n)"
    by (simp_all add: e pow2_def nat_add_distrib)
  show ?thesis
    using A B by (simp only: pw simp_thms)
next
  case False
  define y where "y = 1 / \<bar>x\<bar>"
  have y: "1 < y" using False assms by (simp add: y_def)
  define m where "m = nat \<lceil>y\<rceil> - 1"
  have c: "2 \<le> \<lceil>y\<rceil>" using y by linarith
  then have m: "0 < m" "real m < y" "y \<le> real m + 1"
    by (simp_all add: m_def) (linarith+)?
  from ilog2_nat_bounds[OF m(1)]
  have b: "2 ^ ilog2_nat m \<le> m" "m + 1 \<le> 2 ^ Suc (ilog2_nat m)" by simp_all
  have "real (2 ^ ilog2_nat m) \<le> real m"
    using b(1) by (simp only: of_nat_le_iff)
  then have "(2::real) ^ ilog2_nat m \<le> real m" by simp
  then have lo: "(2::real) ^ ilog2_nat m < y"
    using m(2) by linarith
  have "real (m + 1) \<le> real (2 ^ Suc (ilog2_nat m))"
    using b(2) by (simp only: of_nat_le_iff)
  then have "real m + 1 \<le> (2::real) ^ Suc (ilog2_nat m)" by simp
  then have hi: "y \<le> (2::real) ^ Suc (ilog2_nat m)" using m(3) by linarith
  have e: "ilog2 x = - int (ilog2_nat m) - 1"
    using False by (simp add: ilog2_def m_def y_def)
  have xpos: "0 < \<bar>x\<bar>" using assms by simp
  have A: "1 / (2::real) ^ Suc (ilog2_nat m) \<le> \<bar>x\<bar>"
    using hi xpos by (simp add: y_def field_simps)
  have B: "\<bar>x\<bar> < 1 / (2::real) ^ ilog2_nat m"
    using lo xpos by (simp add: y_def field_simps)
  have pw: "pow2 (ilog2 x) = 1 / 2 ^ Suc (ilog2_nat m)"
    "pow2 (ilog2 x + 1) = 1 / 2 ^ ilog2_nat m"
    by (simp_all add: e pow2_def nat_add_distrib)
  show ?thesis
    using A B by (simp only: pw simp_thms)
qed

lemma roundToEven_near: "\<bar>of_int (roundToEven y) - y\<bar> \<le> 1 / 2"
proof -
  have "of_int \<lfloor>y\<rfloor> \<le> y" "y < of_int \<lfloor>y\<rfloor> + 1" by linarith+
  then show ?thesis
    by (auto simp: roundToEven_def Let_def)
qed

lemma f64_round_near:
  assumes "f64_round x = Some r"
  shows "\<bar>r - x\<bar> \<le> pow2 (max (ilog2 x - 52) (- 1074)) / 2"
proof (cases "x = 0")
  case True
  with assms show ?thesis using pow2_pos[of "max (ilog2 x - 52) (- 1074)"]
    by (simp add: f64_round_def)
next
  case False
  define p where "p = pow2 (max (ilog2 x - 52) (- 1074))"
  have p: "0 < p" by (simp add: p_def pow2_pos)
  have r: "r = of_int (roundToEven (x / p)) * p"
    using assms False by (auto simp: f64_round_def Let_def p_def split: if_splits)
  have "r - x = (of_int (roundToEven (x / p)) - x / p) * p"
    using p by (simp add: r field_simps)
  then have "\<bar>r - x\<bar> = \<bar>of_int (roundToEven (x / p)) - x / p\<bar> * p"
    using p by (simp add: abs_mult)
  also have "\<dots> \<le> (1 / 2) * p"
    using roundToEven_near[of "x / p"] p by (intro mult_right_mono) simp_all
  finally show ?thesis by (simp add: p_def)
qed

lemma pow2_powr: "pow2 e = 2 powr (of_int e)"
  by (simp add: pow2_def powr_int)

lemma pow2_add: "pow2 (a + b) = pow2 a * pow2 b"
  by (simp add: pow2_powr powr_add)

lemma pow2_less_iff: "pow2 a < pow2 b \<longleftrightarrow> a < b"
  by (simp add: pow2_powr)

lemma pow2_le_iff: "pow2 a \<le> pow2 b \<longleftrightarrow> a \<le> b"
  by (simp add: pow2_powr)

lemma pow2_nonneg_int:
  assumes "0 \<le> d"
  shows "pow2 d = of_int (2 ^ nat d)"
  using assms by (simp add: pow2_def)

lemma roundToEven_of_int: "roundToEven (of_int n) = n"
  by (simp add: roundToEven_def)

lemma f64_round_0: "f64_round 0 = Some 0"
  by (simp add: f64_round_def)

text \<open>A number \<open>m * 2 ^ e\<close> with \<open>\<bar>m\<bar> < 2 ^ 53\<close> and \<open>- 1074 \<le> e \<le> 970\<close> is a
  \<^verbatim>\<open>float64\<close>: rounding leaves it as it is.\<close>

lemma f64_round_exact:
  assumes x: "x = of_int m * pow2 e" and m: "\<bar>m\<bar> < 2 ^ 53" and e: "- 1074 \<le> e" "e \<le> 970"
  shows "f64_round x = Some x"
proof (cases "x = 0")
  case True
  then show ?thesis by (simp add: f64_round_def)
next
  case False
  define q where "q = max (ilog2 x - 52) (- 1074)"
  have ax: "\<bar>x\<bar> = of_int \<bar>m\<bar> * pow2 e"
    using pow2_pos[of e] by (simp add: x abs_mult)
  have "of_int \<bar>m\<bar> < (2::real) ^ 53"
    using m by (metis of_int_less_numeral_power_cancel_iff)
  then have "\<bar>x\<bar> < 2 ^ 53 * pow2 e"
    using pow2_pos[of e] by (simp add: ax)
  also have "\<dots> = pow2 (53 + e)"
    by (simp add: pow2_add) (simp add: pow2_def)
  finally have "pow2 (ilog2 x) < pow2 (53 + e)"
    using ilog2_bounds[OF False] by linarith
  then have "ilog2 x < 53 + e" by (simp only: pow2_less_iff)
  then have qe: "q \<le> e" using e by (simp add: q_def)
  define d where "d = e - q"
  have d: "0 \<le> d" using qe by (simp add: d_def)
  have "pow2 e = pow2 d * pow2 q"
    using pow2_add[of d q] by (simp add: d_def)
  then have xq: "x = of_int (m * 2 ^ nat d) * pow2 q"
    by (simp add: x pow2_nonneg_int[OF d])
  have pq: "pow2 q \<noteq> 0" using pow2_pos[of q] by simp
  have "x / pow2 q = of_int (m * 2 ^ nat d)"
    using pq by (subst xq) simp
  then have r: "of_int (roundToEven (x / pow2 q)) * pow2 q = x"
    by (simp only: roundToEven_of_int xq[symmetric])
  have "pow2 (53 + e) \<le> pow2 1023" using e(2) by (simp only: pow2_le_iff)
  also have "\<dots> < 2 ^ 1024" by (simp add: pow2_def)
  finally have "pow2 (53 + e) < 2 ^ 1024" .
  then have small: "\<not> \<bar>x\<bar> \<ge> 2 ^ 1024"
    using \<open>\<bar>x\<bar> < 2 ^ 53 * pow2 e\<close> \<open>2 ^ 53 * pow2 e = pow2 (53 + e)\<close> by linarith
  show ?thesis
    using False small r by (simp add: f64_round_def Let_def q_def[symmetric])
qed

lemma f64_round_int:
  assumes "\<bar>n\<bar> < 2 ^ 53"
  shows "f64_round (of_int n) = Some (of_int n)"
  using f64_round_exact[of "of_int n" n 0] assms by (simp add: pow2_def)

lemma is_f64_grid:
  assumes "\<bar>m\<bar> < 2 ^ 53" and "- 1074 \<le> e" and "e \<le> 970"
  shows "is_f64 (of_int m * pow2 e)"
  unfolding is_f64_def using assms by (intro f64_round_exact[of _ m e]) simp_all

lemma f64_round_half_int:
  assumes "\<bar>n\<bar> < 2 ^ 53"
  shows "f64_round (of_int n / 2) = Some (of_int n / 2)"
  using f64_round_exact[of "of_int n / 2" n "- 1"] assms by (simp add: pow2_def)

text \<open>Rounding is monotone, and it stays between two \<^verbatim>\<open>float64\<close> numbers that
  enclose its argument.\<close>

lemma roundToEven_mono: "y1 \<le> y2 \<Longrightarrow> roundToEven y1 \<le> roundToEven y2"
proof -
  assume le: "y1 \<le> y2"
  have f: "\<lfloor>y1\<rfloor> \<le> \<lfloor>y2\<rfloor>" using le by (rule floor_mono)
  show ?thesis
  proof (cases "\<lfloor>y1\<rfloor> = \<lfloor>y2\<rfloor>")
    case True
    then show ?thesis using le by (auto simp: roundToEven_def Let_def)
  next
    case False
    then have "\<lfloor>y1\<rfloor> + 1 \<le> \<lfloor>y2\<rfloor>" using f by simp
    moreover have "roundToEven y1 \<le> \<lfloor>y1\<rfloor> + 1" by (auto simp: roundToEven_def Let_def)
    moreover have "\<lfloor>y2\<rfloor> \<le> roundToEven y2" by (auto simp: roundToEven_def Let_def)
    ultimately show ?thesis by linarith
  qed
qed

lemma roundToEven_uminus: "roundToEven (- y) = - roundToEven y"
proof (cases "y = of_int \<lfloor>y\<rfloor>")
  case True
  then have "roundToEven y = \<lfloor>y\<rfloor>" "roundToEven (- y) = - \<lfloor>y\<rfloor>"
    using roundToEven_of_int[of "\<lfloor>y\<rfloor>"] roundToEven_of_int[of "- \<lfloor>y\<rfloor>"] by simp_all
  then show ?thesis by simp
next
  case False
  then have lt: "of_int \<lfloor>y\<rfloor> < y" by linarith
  have "y < of_int \<lfloor>y\<rfloor> + 1" by linarith
  then have fl: "\<lfloor>- y\<rfloor> = - \<lfloor>y\<rfloor> - 1" using lt by (intro floor_unique) linarith+
  show ?thesis
    unfolding roundToEven_def Let_def fl using lt by (auto simp: field_simps)
qed

lemma roundToEven_le_int: "y \<le> of_int N \<Longrightarrow> roundToEven y \<le> N"
  using roundToEven_mono[of y "of_int N"] by (simp add: roundToEven_of_int)

lemma roundToEven_ge_int: "of_int N \<le> y \<Longrightarrow> N \<le> roundToEven y"
  using roundToEven_mono[of "of_int N" y] by (simp add: roundToEven_of_int)

lemma roundToEven_0: "roundToEven 0 = 0"
  by (simp add: roundToEven_def)

lemma f64_nearest_0: "f64_nearest 0 = 0"
  by (simp add: f64_nearest_def roundToEven_0)

lemma f64_round_nearest:
  "f64_round x = (if \<bar>f64_nearest x\<bar> \<ge> 2 ^ 1024 then None else Some (f64_nearest x))"
  by (simp add: f64_round_def f64_nearest_def Let_def roundToEven_0)

lemma ilog2_uminus: "ilog2 (- x) = ilog2 x"
  by (simp add: ilog2_def)

lemma f64_nearest_uminus: "f64_nearest (- x) = - f64_nearest x"
  by (simp add: f64_nearest_def Let_def ilog2_uminus roundToEven_uminus)

lemma ilog2_mono:
  assumes "0 < x" and "x \<le> y"
  shows "ilog2 x \<le> ilog2 y"
proof -
  have "pow2 (ilog2 x) \<le> \<bar>x\<bar>" using ilog2_bounds[of x] assms by simp
  moreover have "\<bar>y\<bar> < pow2 (ilog2 y + 1)" using ilog2_bounds[of y] assms by simp
  ultimately have "pow2 (ilog2 x) < pow2 (ilog2 y + 1)" using assms by linarith
  then show ?thesis by (simp add: pow2_less_iff)
qed

lemma f64_nearest_nonneg:
  assumes "0 \<le> x"
  shows "0 \<le> f64_nearest x"
proof -
  define q where "q = max (ilog2 x - 52) (- 1074)"
  have "0 \<le> x / pow2 q" using assms pow2_pos[of q] by simp
  then have "0 \<le> roundToEven (x / pow2 q)" using roundToEven_ge_int[of 0] by simp
  then show ?thesis using pow2_pos[of q] by (simp add: f64_nearest_def Let_def q_def)
qed

lemma f64_nearest_mono_pos:
  assumes "0 < x" and "x \<le> y"
  shows "f64_nearest x \<le> f64_nearest y"
proof -
  define qx where "qx = max (ilog2 x - 52) (- 1074)"
  define qy where "qy = max (ilog2 y - 52) (- 1074)"
  have nx: "f64_nearest x = of_int (roundToEven (x / pow2 qx)) * pow2 qx"
    by (simp add: f64_nearest_def Let_def qx_def)
  have ny: "f64_nearest y = of_int (roundToEven (y / pow2 qy)) * pow2 qy"
    by (simp add: f64_nearest_def Let_def qy_def)
  have L: "ilog2 x \<le> ilog2 y" using assms by (rule ilog2_mono)
  then have q: "qx \<le> qy" by (simp add: qx_def qy_def)
  show ?thesis
  proof (cases "qx = qy")
    case True
    have "x / pow2 qy \<le> y / pow2 qy" using assms(2) pow2_pos[of qy] by (simp add: divide_right_mono)
    then have "roundToEven (x / pow2 qy) \<le> roundToEven (y / pow2 qy)" by (rule roundToEven_mono)
    then have "(of_int (roundToEven (x / pow2 qy)) :: real) \<le> of_int (roundToEven (y / pow2 qy))"
      by simp
    then show ?thesis unfolding nx ny True using pow2_pos[of qy] by (simp add: mult_right_mono)
  next
    case False
    then have lt: "qx < qy" using q by simp
    then have qy': "qy = ilog2 y - 52" unfolding qx_def qy_def by linarith
    have y0: "0 < y" using assms by linarith
    have "pow2 (ilog2 y) \<le> y" using ilog2_bounds[of y] y0 by simp
    then have "pow2 (ilog2 y) / pow2 qy \<le> y / pow2 qy"
      using pow2_pos[of qy] by (simp add: divide_right_mono)
    moreover have "pow2 (ilog2 y) = pow2 52 * pow2 qy"
      using pow2_add[of 52 qy] by (simp add: qy')
    ultimately have "pow2 52 \<le> y / pow2 qy" using pow2_pos[of qy] by simp
    then have "of_int (2 ^ 52) \<le> y / pow2 qy" by (simp add: pow2_def)
    then have "2 ^ 52 \<le> roundToEven (y / pow2 qy)" by (rule roundToEven_ge_int)
    then have "(of_int (2 ^ 52) :: real) \<le> of_int (roundToEven (y / pow2 qy))"
      by (simp only: of_int_le_iff)
    then have "pow2 52 * pow2 qy \<le> f64_nearest y"
      unfolding ny using pow2_pos[of qy] by (simp add: pow2_def mult_right_mono)
    then have low: "pow2 (ilog2 y) \<le> f64_nearest y"
      using \<open>pow2 (ilog2 y) = pow2 52 * pow2 qy\<close> by simp
    define k where "k = max (ilog2 x + 1 - qx) 0"
    have k0: "0 \<le> k" by (simp add: k_def)
    have "x < pow2 (ilog2 x + 1)" using ilog2_bounds[of x] assms(1) by simp
    also have "pow2 (ilog2 x + 1) \<le> pow2 (k + qx)" by (simp add: pow2_le_iff k_def)
    finally have "x < pow2 k * pow2 qx" by (simp add: pow2_add)
    then have "x / pow2 qx \<le> pow2 k" using pow2_pos[of qx] by (simp add: field_simps)
    then have "x / pow2 qx \<le> of_int (2 ^ nat k)" using pow2_nonneg_int[OF k0] by simp
    then have "roundToEven (x / pow2 qx) \<le> 2 ^ nat k" by (rule roundToEven_le_int)
    then have "(of_int (roundToEven (x / pow2 qx)) :: real) \<le> of_int (2 ^ nat k)"
      by (simp only: of_int_le_iff)
    then have "f64_nearest x \<le> pow2 k * pow2 qx"
      unfolding nx using pow2_pos[of qx] pow2_nonneg_int[OF k0] by (simp add: mult_right_mono)
    also have "\<dots> = pow2 (k + qx)" by (simp add: pow2_add)
    also have "\<dots> \<le> pow2 (ilog2 y)"
    proof -
      have "ilog2 x < ilog2 y" using lt qy' by (simp add: qx_def)
      moreover have "qx \<le> ilog2 y" using lt qy' by simp
      ultimately have "k + qx \<le> ilog2 y" by (simp add: k_def)
      then show ?thesis by (simp add: pow2_le_iff)
    qed
    finally show ?thesis using low by linarith
  qed
qed

lemma f64_nearest_mono:
  assumes "x \<le> y"
  shows "f64_nearest x \<le> f64_nearest y"
proof -
  consider "0 < x" | "x \<le> 0" "0 \<le> y" | "y < 0" by linarith
  then show ?thesis
  proof cases
    case 1
    then show ?thesis using assms by (rule f64_nearest_mono_pos)
  next
    case 2
    have "0 \<le> f64_nearest (- x)" using 2(1) by (intro f64_nearest_nonneg) simp
    then have "f64_nearest x \<le> 0" by (simp add: f64_nearest_uminus)
    moreover have "0 \<le> f64_nearest y" using 2(2) by (rule f64_nearest_nonneg)
    ultimately show ?thesis by linarith
  next
    case 3
    have "f64_nearest (- y) \<le> f64_nearest (- x)"
      using 3 assms by (intro f64_nearest_mono_pos) simp_all
    then show ?thesis by (simp add: f64_nearest_uminus)
  qed
qed

lemma f64_round_mono:
  assumes "x \<le> y" and "f64_round x = Some a" and "f64_round y = Some b"
  shows "a \<le> b"
  using f64_nearest_mono[OF assms(1)] assms(2,3)
  by (simp add: f64_round_nearest split: if_splits)

lemma f64_round_between:
  assumes "is_f64 lo" and "is_f64 hi" and "lo \<le> x" and "x \<le> hi"
  shows "\<exists>r. f64_round x = Some r \<and> lo \<le> r \<and> r \<le> hi"
proof -
  have lo: "f64_nearest lo = lo" "\<bar>lo\<bar> < 2 ^ 1024"
    using assms(1) by (simp_all add: is_f64_def f64_round_nearest split: if_splits)
  have hi: "f64_nearest hi = hi" "\<bar>hi\<bar> < 2 ^ 1024"
    using assms(2) by (simp_all add: is_f64_def f64_round_nearest split: if_splits)
  have "lo \<le> f64_nearest x" using f64_nearest_mono[OF assms(3)] lo(1) by simp
  moreover have "f64_nearest x \<le> hi" using f64_nearest_mono[OF assms(4)] hi(1) by simp
  moreover from this calculation have "\<bar>f64_nearest x\<bar> < 2 ^ 1024" using lo(2) hi(2) by linarith
  ultimately show ?thesis by (simp add: f64_round_nearest)
qed

text \<open>The facts that evaluate an operation on given numbers.\<close>

lemmas f64_eval =
  f64_add_def f64_sub_def f64_mul_def f64_div_def f64_round_def ilog2_def ilog2_nat.simps
  pow2_def roundToEven_def Let_def

section \<open>The zero sweep in binary64\<close>

text \<open>The division by the zero sweep is the same with rounded operations: the start and
  end angles 0 and 360 are normalised to 0 and 0 without rounding, and the ratio is
  \<open>0 / 0\<close>.\<close>

lemma zero_sweep_f64:
  "updateValueFromAngle_f64 ((NewRotatingKnob 0 100)\<lparr>StartAngle := 0, EndAngle := 360\<rparr>) 90
     = Some (Inl NonFinite)"
proof -
  have c: "f64_sub 360 360 = Some 0" "f64_sub 0 0 = Some 0" "f64_sub 90 0 = Some 90"
    "f64_sub 360 0 = Some 360" "f64_div 360 2 = Some 180" "f64_add 0 180 = Some 180"
    "f64_div 0 0 = None"
    by (simp_all add: f64_eval)
  have "normalizedAngles_f64 ((NewRotatingKnob 0 100)\<lparr>StartAngle := 0, EndAngle := 360\<rparr>)
      = Some (Inr (0, 0))"
    using c(1)
    by (simp add: normalizedAngles_f64_def andThen_def addTurns_f64.simps subTurns_f64.simps
        NewRotatingKnob_def)
  then show ?thesis
    using c by (simp add: updateValueFromAngle_f64_def andThen_def num_def NewRotatingKnob_def)
qed

section \<open>Loops that do not end\<close>

text \<open>An addition that rounds back to the value it started from leaves the loop
  condition as it was: the loop does not end.\<close>

lemma wrap_up_f64_stuck:
  assumes "v < lo" and "f64_add v r = Some v"
  shows "wrap_up_f64 (Some r) lo v = None"
proof -
  have never: "\<not> (r' = Some r \<and> lo' = lo \<and> v' = v)"
    if w: "wrap_up_f64 r' lo' v' = Some y" for r' lo' v' y
  proof (rule wrap_up_f64.raw_induct
      [where P = "\<lambda>r' lo' v' y. \<not> (r' = Some r \<and> lo' = lo \<and> v' = v)", OF _ w])
    fix f r' lo' v' y
    assume IH: "\<And>a b c d. f a b c = Some d \<Longrightarrow> \<not> (a = Some r \<and> b = lo \<and> c = v)"
      and st: "(if v' < lo'
                then case Option.bind r' (f64_add v') of
                       None \<Rightarrow> Some (Inl NonFinite)
                     | Some v'' \<Rightarrow> f r' lo' v''
                else Some (Inr v')) = Some y"
    show "\<not> (r' = Some r \<and> lo' = lo \<and> v' = v)"
    proof
      assume "r' = Some r \<and> lo' = lo \<and> v' = v"
      with st assms have "f (Some r) lo v = Some y" by simp
      from IH[OF this] show False by simp
    qed
  qed
  show ?thesis
  proof (cases "wrap_up_f64 (Some r) lo v")
    case None
    then show ?thesis .
  next
    case (Some y)
    from never[OF this] show ?thesis by simp
  qed
qed

lemma addTurns_f64_stuck:
  assumes "a < 0" and "f64_add a 360 = Some a"
  shows "addTurns_f64 a = None"
proof -
  have never: "a' \<noteq> a" if w: "addTurns_f64 a' = Some y" for a' y
  proof (rule addTurns_f64.raw_induct[where P = "\<lambda>a' y. a' \<noteq> a", OF _ w])
    fix f a' y
    assume IH: "\<And>b d. f b = Some d \<Longrightarrow> b \<noteq> a"
      and st: "(if a' < 0
                then case f64_add a' 360 of
                       None \<Rightarrow> Some (Inl NonFinite)
                     | Some a'' \<Rightarrow> f a''
                else Some (Inr a')) = Some y"
    show "a' \<noteq> a"
    proof
      assume "a' = a"
      with st assms have "f a = Some y" by simp
      from IH[OF this] show False by simp
    qed
  qed
  show ?thesis
  proof (cases "addTurns_f64 a")
    case None
    then show ?thesis .
  next
    case (Some y)
    from never[OF this] show ?thesis by simp
  qed
qed

text \<open>
  C9. With \<open>Min < Max\<close>, \<open>SetValue\<close> is to end for every finite value, and the
  normalisation loops of \<open>updateValueFromAngle\<close> for every finite start and end angle.
  The code does not: on the wrapping knob with the range from 0 to 100,
  \<open>SetValue (- 10 ^ 19)\<close> adds 100 to \<open>- 10 ^ 19\<close>, the sum rounds back to
  \<open>- 10 ^ 19\<close> (the \<^verbatim>\<open>float64\<close> numbers near it are 2048 apart), and the loop
  \<^verbatim>\<open>for value < k.Min\<close> runs forever. A start angle of \<open>- 10 ^ 19\<close> does the same to
  the loop \<^verbatim>\<open>for startAngle < 0\<close>. Both inputs are finite \<^verbatim>\<open>float64\<close> numbers.
\<close>

theorem float_loops_hang:
  "Min_k ((NewRotatingKnob 0 100)\<lparr>Wrapping := True\<rparr>)
     < Max_k ((NewRotatingKnob 0 100)\<lparr>Wrapping := True\<rparr>) \<and>
   f64_round (- (10 ^ 19)) = Some (- (10 ^ 19)) \<and>
   f64_add (- (10 ^ 19)) 100 = Some (- (10 ^ 19)) \<and>
   SetValue_f64 ((NewRotatingKnob 0 100)\<lparr>Wrapping := True\<rparr>) (- (10 ^ 19)) = None \<and>
   f64_add (- (10 ^ 19)) 360 = Some (- (10 ^ 19)) \<and>
   updateValueFromAngle_f64 ((NewRotatingKnob 0 100)\<lparr>StartAngle := - (10 ^ 19)\<rparr>) 90 = None"
proof -
  have i: "f64_round (- (10 ^ 19)) = Some (- (10 ^ 19))"
    by (simp add: f64_eval)
  have a: "f64_add (- (10 ^ 19)) 100 = Some (- (10 ^ 19))"
    by (simp add: f64_eval)
  have b: "f64_sub 100 0 = Some 100"
    by (simp add: f64_eval)
  have c: "f64_add (- (10 ^ 19)) 360 = Some (- (10 ^ 19))"
    by (simp add: f64_eval)
  have "wrap_up_f64 (Some 100) 0 (- (10 ^ 19)) = None"
    by (rule wrap_up_f64_stuck[OF _ a]) simp
  then have s: "SetValue_f64 ((NewRotatingKnob 0 100)\<lparr>Wrapping := True\<rparr>) (- (10 ^ 19)) = None"
    using b by (simp add: SetValue_f64_def NewRotatingKnob_def andThen_def)
  have "addTurns_f64 (- (10 ^ 19)) = None"
    by (rule addTurns_f64_stuck[OF _ c]) simp
  then have u: "updateValueFromAngle_f64
      ((NewRotatingKnob 0 100)\<lparr>StartAngle := - (10 ^ 19)\<rparr>) 90 = None"
    by (simp add: updateValueFromAngle_f64_def normalizedAngles_f64_def NewRotatingKnob_def
        andThen_def)
  show ?thesis
    using i a s c u by (simp add: NewRotatingKnob_def)
qed

section \<open>The dead zone\<close>

lemma SetValue_f64_stores_inside:
  assumes "\<not> Wrapping k" and "Min_k k \<le> v" and "v \<le> Max_k k"
  shows "\<exists>k'. SetValue_f64 k v = Some (Inr k') \<and> Value k' = v"
proof -
  from SetValue_stores[OF rangeValue_inside[OF assms(2,3)]]
  obtain k' where "SetValue k v = Some k'" "Value k' = v" by blast
  then show ?thesis using assms(1) by (simp add: SetValue_f64_def)
qed

text \<open>The default sweep, from -135 to 135 degrees: the start angle is normalised to
  225 and the sweep is 270 wide.\<close>

lemma default_angles_f64:
  assumes "StartAngle k = - 135" and "EndAngle k = 135"
  shows "normalizedAngles_f64 k = Some (Inr (225, 135))"
proof -
  have "f64_add (- 135) 360 = Some 225" by (simp add: f64_eval)
  then show ?thesis
    using assms
    by (simp add: normalizedAngles_f64_def andThen_def addTurns_f64.simps subTurns_f64.simps)
qed

lemma default_knob_update_f64:
  assumes "Min_k k = 0" and "Max_k k = 100" and "StartAngle k = - 135"
    and "EndAngle k = 135" and "\<not> Wrapping k"
    and "f64_sub a 225 = Some r0"
    and "(if r0 < 0 then f64_add r0 360 else Some r0) = Some r1"
  shows "270 < r1 \<and> r1 < 315 \<longrightarrow> updateValueFromAngle_f64 k a = SetValue_f64 k 100"
    and "315 \<le> r1 \<longrightarrow> updateValueFromAngle_f64 k a = SetValue_f64 k 0"
    and "r1 = 115 \<longrightarrow> updateValueFromAngle_f64 k a = SetValue_f64 k (2997187252011615 / 2 ^ 46)"
proof -
  have c: "f64_sub 135 225 = Some (- 90)" "f64_add (- 90) 360 = Some 270"
    "f64_sub 360 270 = Some 90" "f64_div 90 2 = Some 45" "f64_add 270 45 = Some 315"
    "f64_div 270 270 = Some 1" "f64_div 0 270 = Some 0" "f64_sub 100 0 = Some 100"
    "f64_mul 1 100 = Some 100" "f64_mul 0 100 = Some 0" "f64_add 0 100 = Some 100"
    "f64_add 0 0 = Some 0"
    by (simp_all add: f64_eval)
  have d: "f64_div 115 270 = Some (3836399682574867 / 9007199254740992)"
    "f64_mul (3836399682574867 / 9007199254740992) 100 = Some (2997187252011615 / 70368744177664)"
    "f64_add 0 (2997187252011615 / 70368744177664) = Some (2997187252011615 / 70368744177664)"
    by (simp_all add: f64_eval)
  have r: "(if r0 < 0 then num (f64_add r0 360) else Some (Inr r0)) = Some (Inr r1)"
    using assms(7) by (simp add: num_def split: if_splits)
  show "270 < r1 \<and> r1 < 315 \<longrightarrow> updateValueFromAngle_f64 k a = SetValue_f64 k 100"
    using assms(1,2,5,6) r
    by (simp add: updateValueFromAngle_f64_def default_angles_f64[OF assms(3,4)] andThen_def
        num_def c)
  show "315 \<le> r1 \<longrightarrow> updateValueFromAngle_f64 k a = SetValue_f64 k 0"
    using assms(1,2,5,6) r
    by (simp add: updateValueFromAngle_f64_def default_angles_f64[OF assms(3,4)] andThen_def
        num_def c)
  show "r1 = 115 \<longrightarrow> updateValueFromAngle_f64 k a = SetValue_f64 k (2997187252011615 / 2 ^ 46)"
    using assms(1,2,5,6) r
    by (simp add: updateValueFromAngle_f64_def default_angles_f64[OF assms(3,4)] andThen_def
        num_def c d)
qed

text \<open>
  C1. The default knob: range 0 to 100, sweep from -135 to 135 degrees (normalised: from
  225 over 0 to 135, 270 degrees wide), no wrapping. The dead zone is the arc from 135 to
  225 and its middle is at 180. The claim has angle 200 store 100 and angle 340 store 0.
  The code stores 0 at 200 (its relative angle 335 is in the second half of the dead
  zone) and about 42.59 at 340 (relative angle 115, inside the sweep).
\<close>

theorem deadzone_claim_counterexample:
  "valueAfter (updateValueFromAngle_f64 (NewRotatingKnob 0 100) 200) = Some 0 \<and>
   valueAfter (updateValueFromAngle_f64 (NewRotatingKnob 0 100) 200) \<noteq> Some 100 \<and>
   valueAfter (updateValueFromAngle_f64 (NewRotatingKnob 0 100) 340)
     = Some (2997187252011615 / 2 ^ 46) \<and>
   valueAfter (updateValueFromAngle_f64 (NewRotatingKnob 0 100) 340) \<noteq> Some 0"
proof -
  have h: "Min_k (NewRotatingKnob 0 100) = 0" "Max_k (NewRotatingKnob 0 100) = 100"
    "StartAngle (NewRotatingKnob 0 100) = - 135" "EndAngle (NewRotatingKnob 0 100) = 135"
    "\<not> Wrapping (NewRotatingKnob 0 100)"
    by (simp_all add: NewRotatingKnob_def)
  have a: "f64_sub 200 225 = Some (- 25)"
    "(if (- 25::real) < 0 then f64_add (- 25) 360 else Some (- 25)) = Some 335"
    "f64_sub 340 225 = Some 115"
    "(if (115::real) < 0 then f64_add 115 360 else Some 115) = Some 115"
    by (simp_all add: f64_eval)
  have "updateValueFromAngle_f64 (NewRotatingKnob 0 100) 200
      = SetValue_f64 (NewRotatingKnob 0 100) 0"
    using default_knob_update_f64(2)[OF h a(1,2)] by simp
  moreover have "updateValueFromAngle_f64 (NewRotatingKnob 0 100) 340
      = SetValue_f64 (NewRotatingKnob 0 100) (2997187252011615 / 2 ^ 46)"
    using default_knob_update_f64(3)[OF h a(3,4)] by simp
  ultimately show ?thesis
    by (simp add: valueAfter_def SetValue_f64_def SetValue_def rangeValue_def NewRotatingKnob_def
        fireOnChanged_def)
qed

text \<open>
  C1, as the code has it, in \<^verbatim>\<open>float64\<close>. On that knob angle 200 stores 0, and angle
  340 stores 2997187252011615 / 2 ^ 46 (42.592592592592595), the unclamped value of the
  relative angle 115. The bisection rule is the rule of the claim, on the relative angle
  \<open>r\<close> that the code computes (the rounded \<open>angle - 225\<close>, plus 360 when that is
  negative): the knob stores the maximum 100 when \<open>270 < r < 315\<close> and the minimum 0
  when \<open>315 \<le> r\<close>.
\<close>

theorem deadzone_bisection:
  assumes "Min_k k = 0" and "Max_k k = 100" and "StartAngle k = - 135"
    and "EndAngle k = 135" and "\<not> Wrapping k"
  shows "(\<exists>k'. updateValueFromAngle_f64 k 200 = Some (Inr k') \<and> Value k' = 0) \<and>
         (\<exists>k'. updateValueFromAngle_f64 k 340 = Some (Inr k')
            \<and> Value k' = 2997187252011615 / 2 ^ 46) \<and>
         (\<forall>a r0 r1. f64_sub a 225 = Some r0 \<and>
              (if r0 < 0 then f64_add r0 360 else Some r0) = Some r1 \<and> 270 < r1 \<and> r1 < 315
            \<longrightarrow> (\<exists>k'. updateValueFromAngle_f64 k a = Some (Inr k') \<and> Value k' = 100)) \<and>
         (\<forall>a r0 r1. f64_sub a 225 = Some r0 \<and>
              (if r0 < 0 then f64_add r0 360 else Some r0) = Some r1 \<and> 315 \<le> r1
            \<longrightarrow> (\<exists>k'. updateValueFromAngle_f64 k a = Some (Inr k') \<and> Value k' = 0))"
proof -
  have s0: "\<exists>k'. SetValue_f64 k 0 = Some (Inr k') \<and> Value k' = 0"
    using assms(1,2,5) by (intro SetValue_f64_stores_inside) simp_all
  have s100: "\<exists>k'. SetValue_f64 k 100 = Some (Inr k') \<and> Value k' = 100"
    using assms(1,2,5) by (intro SetValue_f64_stores_inside) simp_all
  have smid: "\<exists>k'. SetValue_f64 k (2997187252011615 / 2 ^ 46) = Some (Inr k')
      \<and> Value k' = 2997187252011615 / 2 ^ 46"
    using assms(1,2,5) by (intro SetValue_f64_stores_inside) simp_all
  have a: "f64_sub 200 225 = Some (- 25)"
    "(if (- 25::real) < 0 then f64_add (- 25) 360 else Some (- 25)) = Some 335"
    "f64_sub 340 225 = Some 115"
    "(if (115::real) < 0 then f64_add 115 360 else Some 115) = Some 115"
    by (simp_all add: f64_eval)
  have u200: "updateValueFromAngle_f64 k 200 = SetValue_f64 k 0"
    using default_knob_update_f64(2)[OF assms a(1,2)] by simp
  have u340: "updateValueFromAngle_f64 k 340 = SetValue_f64 k (2997187252011615 / 2 ^ 46)"
    using default_knob_update_f64(3)[OF assms a(3,4)] by simp
  show ?thesis
  proof (intro conjI allI impI)
    show "\<exists>k'. updateValueFromAngle_f64 k 200 = Some (Inr k') \<and> Value k' = 0"
      using s0 by (simp only: u200)
    show "\<exists>k'. updateValueFromAngle_f64 k 340 = Some (Inr k')
        \<and> Value k' = 2997187252011615 / 2 ^ 46"
      using smid by (simp only: u340)
  next
    fix a r0 r1
    assume h: "f64_sub a 225 = Some r0 \<and>
      (if r0 < 0 then f64_add r0 360 else Some r0) = Some r1 \<and> 270 < r1 \<and> r1 < 315"
    then have "updateValueFromAngle_f64 k a = SetValue_f64 k 100"
      using default_knob_update_f64(1)[OF assms, of a r0 r1] by blast
    then show "\<exists>k'. updateValueFromAngle_f64 k a = Some (Inr k') \<and> Value k' = 100"
      using s100 by simp
  next
    fix a r0 r1
    assume h: "f64_sub a 225 = Some r0 \<and>
      (if r0 < 0 then f64_add r0 360 else Some r0) = Some r1 \<and> 315 \<le> r1"
    then have "updateValueFromAngle_f64 k a = SetValue_f64 k 0"
      using default_knob_update_f64(2)[OF assms, of a r0 r1] by blast
    then show "\<exists>k'. updateValueFromAngle_f64 k a = Some (Inr k') \<and> Value k' = 0"
      using s0 by simp
  qed
qed

theorem deadzone_bisection_witness:
  "Min_k (NewRotatingKnob 0 100) = 0 \<and> Max_k (NewRotatingKnob 0 100) = 100 \<and>
   StartAngle (NewRotatingKnob 0 100) = - 135 \<and> EndAngle (NewRotatingKnob 0 100) = 135 \<and>
   \<not> Wrapping (NewRotatingKnob 0 100) \<and>
   (\<exists>k'. updateValueFromAngle_f64 (NewRotatingKnob 0 100) 200 = Some (Inr k') \<and> Value k' = 0) \<and>
   (\<exists>k'. updateValueFromAngle_f64 (NewRotatingKnob 0 100) 340 = Some (Inr k')
      \<and> Value k' = 2997187252011615 / 2 ^ 46) \<and>
   f64_sub 150 225 = Some (- 75) \<and>
   (if (- 75::real) < 0 then f64_add (- 75) 360 else Some (- 75)) = Some 285 \<and>
   (270::real) < 285 \<and> (285::real) < 315 \<and>
   (\<exists>k'. updateValueFromAngle_f64 (NewRotatingKnob 0 100) 150 = Some (Inr k') \<and> Value k' = 100) \<and>
   f64_sub 224 225 = Some (- 1) \<and>
   (if (- 1::real) < 0 then f64_add (- 1) 360 else Some (- 1)) = Some 359 \<and>
   (315::real) \<le> 359 \<and>
   (\<exists>k'. updateValueFromAngle_f64 (NewRotatingKnob 0 100) 224 = Some (Inr k') \<and> Value k' = 0)"
proof -
  have h: "Min_k (NewRotatingKnob 0 100) = 0" "Max_k (NewRotatingKnob 0 100) = 100"
    "StartAngle (NewRotatingKnob 0 100) = - 135" "EndAngle (NewRotatingKnob 0 100) = 135"
    "\<not> Wrapping (NewRotatingKnob 0 100)"
    by (simp_all add: NewRotatingKnob_def)
  have e: "f64_sub 150 225 = Some (- 75)"
    "(if (- 75::real) < 0 then f64_add (- 75) 360 else Some (- 75)) = Some 285"
    "f64_sub 224 225 = Some (- 1)"
    "(if (- 1::real) < 0 then f64_add (- 1) 360 else Some (- 1)) = Some 359"
    by (simp_all add: f64_eval)
  from deadzone_bisection[OF h]
  have a: "\<exists>k'. updateValueFromAngle_f64 (NewRotatingKnob 0 100) 200 = Some (Inr k')
      \<and> Value k' = 0"
    and b: "\<exists>k'. updateValueFromAngle_f64 (NewRotatingKnob 0 100) 340 = Some (Inr k')
      \<and> Value k' = 2997187252011615 / 2 ^ 46"
    and c: "\<forall>a r0 r1. f64_sub a 225 = Some r0 \<and>
              (if r0 < 0 then f64_add r0 360 else Some r0) = Some r1 \<and> 270 < r1 \<and> r1 < 315
            \<longrightarrow> (\<exists>k'. updateValueFromAngle_f64 (NewRotatingKnob 0 100) a = Some (Inr k')
                  \<and> Value k' = 100)"
    and d: "\<forall>a r0 r1. f64_sub a 225 = Some r0 \<and>
              (if r0 < 0 then f64_add r0 360 else Some r0) = Some r1 \<and> 315 \<le> r1
            \<longrightarrow> (\<exists>k'. updateValueFromAngle_f64 (NewRotatingKnob 0 100) a = Some (Inr k')
                  \<and> Value k' = 0)"
    by blast+
  have c': "\<exists>k'. updateValueFromAngle_f64 (NewRotatingKnob 0 100) 150 = Some (Inr k')
      \<and> Value k' = 100"
    using c[rule_format, of 150 "- 75" 285] e(1,2) by simp
  have d': "\<exists>k'. updateValueFromAngle_f64 (NewRotatingKnob 0 100) 224 = Some (Inr k')
      \<and> Value k' = 0"
    using d[rule_format, of 224 "- 1" 359] e(3,4) by simp
  show ?thesis
    using h a b c' d' e by simp
qed

section \<open>The half circle\<close>

lemma half_circle_angles_f64:
  assumes "StartAngle k = 0" and "EndAngle k = 180"
  shows "normalizedAngles_f64 k = Some (Inr (0, 180))"
  using assms
  by (simp add: normalizedAngles_f64_def andThen_def addTurns_f64.simps subTurns_f64.simps)

lemma half_circle_update_f64:
  assumes "StartAngle k = 0" and "EndAngle k = 180" and "\<not> Wrapping k"
    and "f64_div a 180 = Some r" and "0 \<le> a" and "a \<le> 180" and "is_f64 a"
    and "f64_sub (Max_k k) (Min_k k) = Some d" and "f64_mul r d = Some p"
    and "f64_add (Min_k k) p = Some v" and "r \<le> 1"
  shows "updateValueFromAngle_f64 k a = SetValue_f64 k v"
proof -
  have c: "f64_sub 180 0 = Some 180" by (simp add: f64_eval)
  have a0: "f64_sub a 0 = Some a" using assms(7) by (simp add: f64_sub_def is_f64_def)
  show ?thesis
    using assms(3,4,5,6,8,9,10,11)
    by (simp add: updateValueFromAngle_f64_def half_circle_angles_f64[OF assms(1,2)] andThen_def
        num_def c a0)
qed

text \<open>
  C4. The half circle from 0 to 180 degrees, no wrapping. The claim has angle 180 store
  exactly \<open>Max\<close>. With the bounds -9.4 and 8 (the \<^verbatim>\<open>float64\<close> nearest to -9.4 is
  -5291729562160333 / 2 ^ 49) the difference \<open>Max - Min\<close> is rounded, and at angle 180
  the code stores 4503599627370495 / 2 ^ 49 (7.999999999999998), which is below \<open>Max\<close>.
\<close>

theorem half_circle_claim_counterexample:
  "is_f64 (- 5291729562160333 / 2 ^ 49) \<and>
   valueAfter (updateValueFromAngle_f64
      ((NewRotatingKnob 0 100)\<lparr>Value := 0, Min_k := - 5291729562160333 / 2 ^ 49, Max_k := 8,
         StartAngle := 0, EndAngle := 180\<rparr>) 180) = Some (4503599627370495 / 2 ^ 49) \<and>
   valueAfter (updateValueFromAngle_f64
      ((NewRotatingKnob 0 100)\<lparr>Value := 0, Min_k := - 5291729562160333 / 2 ^ 49, Max_k := 8,
         StartAngle := 0, EndAngle := 180\<rparr>) 180) \<noteq> Some 8"
proof -
  define K where "K = (NewRotatingKnob 0 100)\<lparr>Value := 0, Min_k := - 5291729562160333 / 2 ^ 49,
    Max_k := 8, StartAngle := 0, EndAngle := 180\<rparr>"
  have h: "StartAngle K = 0" "EndAngle K = 180" "\<not> Wrapping K"
    "Min_k K = - 5291729562160333 / 562949953421312" "Max_k K = 8"
    by (simp_all add: K_def NewRotatingKnob_def)
  have m: "is_f64 (- 5291729562160333 / 2 ^ 49)"
    by (simp add: is_f64_def f64_eval)
  have c: "f64_div 180 180 = Some 1" "is_f64 180"
    "f64_sub 8 (- 5291729562160333 / 562949953421312) = Some (2448832297382707 / 140737488355328)"
    "f64_mul 1 (2448832297382707 / 140737488355328) = Some (2448832297382707 / 140737488355328)"
    "f64_add (- 5291729562160333 / 562949953421312) (2448832297382707 / 140737488355328)
      = Some (4503599627370495 / 562949953421312)"
    by (simp_all add: is_f64_def f64_eval)
  have u: "updateValueFromAngle_f64 K 180 = SetValue_f64 K (4503599627370495 / 562949953421312)"
    using c(3,4,5) h(4,5)
    by (intro half_circle_update_f64[OF h(1,2,3) c(1) _ _ c(2),
          of "2448832297382707 / 140737488355328" "2448832297382707 / 140737488355328"]) simp_all
  have "\<exists>k'. SetValue_f64 K (4503599627370495 / 562949953421312) = Some (Inr k')
      \<and> Value k' = 4503599627370495 / 562949953421312 \<and> Max_k k' = 8"
    by (simp add: SetValue_f64_def SetValue_def rangeValue_def K_def NewRotatingKnob_def
        fireOnChanged_def)
  then obtain k' where k': "updateValueFromAngle_f64 K 180 = Some (Inr k')"
    "Value k' = 4503599627370495 / 562949953421312" "Max_k k' = 8"
    using u by auto
  have "valueAfter (updateValueFromAngle_f64 K 180) = Some (4503599627370495 / 2 ^ 49)"
    using k'(1,2) by (simp add: valueAfter_def)
  moreover from this have "valueAfter (updateValueFromAngle_f64 K 180) \<noteq> Some 8" by simp
  ultimately show ?thesis using m unfolding K_def by blast
qed

text \<open>
  C4, as the code has it, in \<^verbatim>\<open>float64\<close>. With \<open>StartAngle = 0\<close>, \<open>EndAngle = 180\<close>,
  no wrapping and \<open>Min \<le> Max\<close>: when the difference \<open>Max - Min\<close> is a \<^verbatim>\<open>float64\<close>, so
  that its subtraction does not round, angle 0 stores exactly \<open>Min\<close> and angle 180 stores
  exactly \<open>Max\<close>; when also the half of the difference and the midpoint
  \<open>(Min + Max) / 2\<close> are \<^verbatim>\<open>float64\<close> numbers, angle 90 stores exactly the midpoint.
\<close>

theorem updateValueFromAngle_half_circle:
  assumes "StartAngle k = 0" and "EndAngle k = 180" and "\<not> Wrapping k"
    and "Min_k k \<le> Max_k k" and "is_f64 (Min_k k)" and "is_f64 (Max_k k)"
    and "is_f64 (Max_k k - Min_k k)"
  shows "(\<exists>k'. updateValueFromAngle_f64 k 0 = Some (Inr k') \<and> Value k' = Min_k k) \<and>
         (\<exists>k'. updateValueFromAngle_f64 k 180 = Some (Inr k') \<and> Value k' = Max_k k) \<and>
         (is_f64 ((Max_k k - Min_k k) / 2) \<and> is_f64 ((Min_k k + Max_k k) / 2)
            \<longrightarrow> (\<exists>k'. updateValueFromAngle_f64 k 90 = Some (Inr k')
                  \<and> Value k' = (Min_k k + Max_k k) / 2))"
proof -
  have c: "f64_div 0 180 = Some 0" "f64_div 180 180 = Some 1" "f64_div 90 180 = Some (1 / 2)"
    "is_f64 0" "is_f64 180" "is_f64 90"
    by (simp_all add: is_f64_def f64_eval)
  have d: "f64_sub (Max_k k) (Min_k k) = Some (Max_k k - Min_k k)"
    using assms(7) by (simp add: f64_sub_def is_f64_def)
  have m0: "f64_mul 0 (Max_k k - Min_k k) = Some 0" by (simp add: f64_mul_def f64_round_0)
  have a0: "f64_add (Min_k k) 0 = Some (Min_k k)"
    using assms(5) by (simp add: f64_add_def is_f64_def)
  have "updateValueFromAngle_f64 k 0 = SetValue_f64 k (Min_k k)"
    by (rule half_circle_update_f64[OF assms(1,2,3) c(1) _ _ c(4) d m0 a0]) simp_all
  moreover have "\<exists>k'. SetValue_f64 k (Min_k k) = Some (Inr k') \<and> Value k' = Min_k k"
    using assms(3,4) by (intro SetValue_f64_stores_inside) simp_all
  ultimately have p0: "\<exists>k'. updateValueFromAngle_f64 k 0 = Some (Inr k') \<and> Value k' = Min_k k"
    by simp
  have m1: "f64_mul 1 (Max_k k - Min_k k) = Some (Max_k k - Min_k k)"
    using assms(7) by (simp add: f64_mul_def is_f64_def)
  have a1: "f64_add (Min_k k) (Max_k k - Min_k k) = Some (Max_k k)"
    using assms(6) by (simp add: f64_add_def is_f64_def)
  have "updateValueFromAngle_f64 k 180 = SetValue_f64 k (Max_k k)"
    by (rule half_circle_update_f64[OF assms(1,2,3) c(2) _ _ c(5) d m1 a1]) simp_all
  moreover have "\<exists>k'. SetValue_f64 k (Max_k k) = Some (Inr k') \<and> Value k' = Max_k k"
    using assms(3,4) by (intro SetValue_f64_stores_inside) simp_all
  ultimately have p180: "\<exists>k'. updateValueFromAngle_f64 k 180 = Some (Inr k') \<and> Value k' = Max_k k"
    by simp
  have p90: "\<exists>k'. updateValueFromAngle_f64 k 90 = Some (Inr k')
      \<and> Value k' = (Min_k k + Max_k k) / 2"
    if e: "is_f64 ((Max_k k - Min_k k) / 2)" "is_f64 ((Min_k k + Max_k k) / 2)"
  proof -
    have m2: "f64_mul (1 / 2) (Max_k k - Min_k k) = Some ((Max_k k - Min_k k) / 2)"
      using e(1) by (simp add: f64_mul_def is_f64_def)
    have "Min_k k + (Max_k k - Min_k k) / 2 = (Min_k k + Max_k k) / 2"
      by (simp add: field_simps)
    then have a2: "f64_add (Min_k k) ((Max_k k - Min_k k) / 2) = Some ((Min_k k + Max_k k) / 2)"
      using e(2) by (simp only: f64_add_def is_f64_def)
    have "updateValueFromAngle_f64 k 90 = SetValue_f64 k ((Min_k k + Max_k k) / 2)"
      by (rule half_circle_update_f64[OF assms(1,2,3) c(3) _ _ c(6) d m2 a2]) simp_all
    moreover have "\<exists>k'. SetValue_f64 k ((Min_k k + Max_k k) / 2) = Some (Inr k')
        \<and> Value k' = (Min_k k + Max_k k) / 2"
      using assms(3,4) by (intro SetValue_f64_stores_inside) simp_all
    ultimately show ?thesis by simp
  qed
  show ?thesis using p0 p180 p90 by blast
qed

theorem updateValueFromAngle_half_circle_witness:
  "(\<exists>k'. updateValueFromAngle_f64 ((NewRotatingKnob 0 100)\<lparr>StartAngle := 0, EndAngle := 180\<rparr>) 0
        = Some (Inr k') \<and> Value k' = 0) \<and>
   (\<exists>k'. updateValueFromAngle_f64 ((NewRotatingKnob 0 100)\<lparr>StartAngle := 0, EndAngle := 180\<rparr>) 180
        = Some (Inr k') \<and> Value k' = 100) \<and>
   (\<exists>k'. updateValueFromAngle_f64 ((NewRotatingKnob 0 100)\<lparr>StartAngle := 0, EndAngle := 180\<rparr>) 90
        = Some (Inr k') \<and> Value k' = 50)"
proof -
  define K where "K = (NewRotatingKnob 0 100)\<lparr>StartAngle := 0, EndAngle := 180\<rparr>"
  have h: "StartAngle K = 0" "EndAngle K = 180" "\<not> Wrapping K" "Min_k K \<le> Max_k K"
    "is_f64 (Min_k K)" "is_f64 (Max_k K)" "is_f64 (Max_k K - Min_k K)"
    by (simp_all add: K_def NewRotatingKnob_def is_f64_def f64_eval)
  have e: "is_f64 ((Max_k K - Min_k K) / 2)" "is_f64 ((Min_k K + Max_k K) / 2)"
    "Min_k K = 0" "Max_k K = 100"
    by (simp_all add: K_def NewRotatingKnob_def is_f64_def f64_eval)
  have "(\<exists>k'. updateValueFromAngle_f64 K 0 = Some (Inr k') \<and> Value k' = 0) \<and>
    (\<exists>k'. updateValueFromAngle_f64 K 180 = Some (Inr k') \<and> Value k' = 100) \<and>
    (\<exists>k'. updateValueFromAngle_f64 K 90 = Some (Inr k') \<and> Value k' = 50)"
    using updateValueFromAngle_half_circle[OF h] e by simp
  then show ?thesis unfolding K_def by simp
qed

section \<open>Wrapping\<close>

text \<open>Numbers on one binary grid: integer multiples of \<open>2 ^ e\<close>. Sums and differences
  that stay below \<open>2 ^ 53\<close> steps of the grid are not rounded.\<close>

lemma grid_less_iff: "of_int x * pow2 e < of_int y * pow2 e \<longleftrightarrow> x < y"
  using pow2_pos[of e] by simp

lemma grid_le_iff: "of_int x * pow2 e \<le> of_int y * pow2 e \<longleftrightarrow> x \<le> y"
  using pow2_pos[of e] by simp

lemma two_53: "(2::int) ^ 53 = 2 * 2 ^ 52"
  by simp

lemma f64_add_grid:
  assumes "\<bar>x + y\<bar> < 2 ^ 53" and "- 1074 \<le> e" and "e \<le> 970"
  shows "f64_add (of_int x * pow2 e) (of_int y * pow2 e) = Some (of_int (x + y) * pow2 e)"
proof -
  have "of_int x * pow2 e + of_int y * pow2 e = of_int (x + y) * pow2 e"
    by (simp add: algebra_simps)
  then show ?thesis
    using f64_round_exact[of "of_int (x + y) * pow2 e" "x + y" e] assms
    by (simp only: f64_add_def)
qed

lemma f64_sub_grid:
  assumes "\<bar>x - y\<bar> < 2 ^ 53" and "- 1074 \<le> e" and "e \<le> 970"
  shows "f64_sub (of_int x * pow2 e) (of_int y * pow2 e) = Some (of_int (x - y) * pow2 e)"
proof -
  have "of_int x * pow2 e - of_int y * pow2 e = of_int (x - y) * pow2 e"
    by (simp add: algebra_simps)
  then show ?thesis
    using f64_round_exact[of "of_int (x - y) * pow2 e" "x - y" e] assms
    by (simp only: f64_sub_def)
qed

text \<open>On a grid the first loop ends: it adds the range \<open>m\<close> times, and ends below
  \<open>Max\<close> when it ran at all.\<close>

lemma wrap_up_f64_grid:
  assumes e: "- 1074 \<le> e" "e \<le> 970" and d: "0 < d"
    and a: "\<bar>a\<bar> < 2 ^ 52" "\<bar>a + d\<bar> < 2 ^ 52" and n: "- (2 ^ 52) < n"
  shows "\<exists>m\<ge>0. wrap_up_f64 (Some (of_int d * pow2 e)) (of_int a * pow2 e) (of_int n * pow2 e)
             = Some (Inr (of_int (n + m * d) * pow2 e))
           \<and> a \<le> n + m * d \<and> (if n < a then n + m * d < a + d else m = 0)"
  using n
proof (induction "nat (a - n)" arbitrary: n rule: less_induct)
  case less
  show ?case
  proof (cases "n < a")
    case False
    then have "wrap_up_f64 (Some (of_int d * pow2 e)) (of_int a * pow2 e) (of_int n * pow2 e)
        = Some (Inr (of_int n * pow2 e))"
      by (subst wrap_up_f64.simps) (simp add: grid_less_iff)
    then show ?thesis using False by (intro exI[of _ 0]) simp
  next
    case True
    have "\<bar>n + d\<bar> < 2 ^ 53" using True less.prems a d two_53 by linarith
    then have s: "f64_add (of_int n * pow2 e) (of_int d * pow2 e) = Some (of_int (n + d) * pow2 e)"
      using e by (rule f64_add_grid)
    have "nat (a - (n + d)) < nat (a - n)" using True d by simp
    moreover have "- (2 ^ 52) < n + d" using less.prems d by linarith
    ultimately obtain m where m: "0 \<le> m"
      "wrap_up_f64 (Some (of_int d * pow2 e)) (of_int a * pow2 e) (of_int (n + d) * pow2 e)
         = Some (Inr (of_int (n + d + m * d) * pow2 e))"
      "a \<le> n + d + m * d" "if n + d < a then n + d + m * d < a + d else m = 0"
      using less.hyps[of "n + d"] by blast
    have "wrap_up_f64 (Some (of_int d * pow2 e)) (of_int a * pow2 e) (of_int n * pow2 e)
        = Some (Inr (of_int (n + d + m * d) * pow2 e))"
      using True s m(2) by (subst wrap_up_f64.simps) (simp add: grid_less_iff)
    moreover have "n + d + m * d = n + (m + 1) * d" by (simp add: algebra_simps)
    moreover have "n + d + m * d < a + d"
      using m(4) True by (cases "n + d < a") simp_all
    ultimately show ?thesis
      using m(1,3) True by (intro exI[of _ "m + 1"]) simp
  qed
qed

text \<open>On a grid the second loop ends: it subtracts the range \<open>m\<close> times, and ends
  above \<open>Min\<close> when it ran at all.\<close>

lemma wrap_down_f64_grid:
  assumes e: "- 1074 \<le> e" "e \<le> 970" and d: "0 < d"
    and b: "\<bar>b\<bar> < 2 ^ 52" "\<bar>b - d\<bar> < 2 ^ 52" and n: "n < 2 ^ 52"
  shows "\<exists>m\<ge>0. wrap_down_f64 (Some (of_int d * pow2 e)) (of_int b * pow2 e) (of_int n * pow2 e)
             = Some (Inr (of_int (n - m * d) * pow2 e))
           \<and> n - m * d \<le> b \<and> (if b < n then b - d < n - m * d else m = 0)"
  using n
proof (induction "nat (n - b)" arbitrary: n rule: less_induct)
  case less
  show ?case
  proof (cases "b < n")
    case False
    then have "wrap_down_f64 (Some (of_int d * pow2 e)) (of_int b * pow2 e) (of_int n * pow2 e)
        = Some (Inr (of_int n * pow2 e))"
      by (subst wrap_down_f64.simps) (simp add: grid_less_iff)
    then show ?thesis using False by (intro exI[of _ 0]) simp
  next
    case True
    have "\<bar>n - d\<bar> < 2 ^ 53" using True less.prems b d two_53 by linarith
    then have s: "f64_sub (of_int n * pow2 e) (of_int d * pow2 e) = Some (of_int (n - d) * pow2 e)"
      using e by (rule f64_sub_grid)
    have "nat (n - d - b) < nat (n - b)" using True d by simp
    moreover have "n - d < 2 ^ 52" using less.prems d by linarith
    ultimately obtain m where m: "0 \<le> m"
      "wrap_down_f64 (Some (of_int d * pow2 e)) (of_int b * pow2 e) (of_int (n - d) * pow2 e)
         = Some (Inr (of_int (n - d - m * d) * pow2 e))"
      "n - d - m * d \<le> b" "if b < n - d then b - d < n - d - m * d else m = 0"
      using less.hyps[of "n - d"] by blast
    have "wrap_down_f64 (Some (of_int d * pow2 e)) (of_int b * pow2 e) (of_int n * pow2 e)
        = Some (Inr (of_int (n - d - m * d) * pow2 e))"
      using True s m(2) by (subst wrap_down_f64.simps) (simp add: grid_less_iff)
    moreover have "n - d - m * d = n - (m + 1) * d" by (simp add: algebra_simps)
    moreover have "b - d < n - d - m * d"
      using m(4) True by (cases "b < n - d") simp_all
    ultimately show ?thesis
      using m(1,3) True by (intro exI[of _ "m + 1"]) simp
  qed
qed

lemma SetValue_f64_wrapping_result:
  assumes "Wrapping k"
    and "wrap_up_f64 (f64_sub (Max_k k) (Min_k k)) (Min_k k) v = Some (Inr v1)"
    and "wrap_down_f64 (f64_sub (Max_k k) (Min_k k)) (Max_k k) v1 = Some (Inr v2)"
  shows "\<exists>k'. SetValue_f64 k v = Some (Inr k') \<and> Value k' = v2 \<and> Min_k k' = Min_k k
    \<and> Max_k k' = Max_k k"
  using assms by (simp add: SetValue_f64_def andThen_def fireOnChanged_def)

lemma SetValue_f64_grid:
  assumes w: "Wrapping k"
    and mn: "Min_k k = of_int a * pow2 e" and mx: "Max_k k = of_int b * pow2 e"
    and v: "v = of_int n * pow2 e"
    and ab: "a < b" "\<bar>a\<bar> < 2 ^ 52" "\<bar>b\<bar> < 2 ^ 52" and n: "\<bar>n\<bar> < 2 ^ 52"
    and e: "- 1074 \<le> e" "e \<le> 970"
  shows "\<exists>k' m. SetValue_f64 k v = Some (Inr k') \<and> Min_k k \<le> Value k' \<and> Value k' \<le> Max_k k
    \<and> Value k' = v + of_int m * (Max_k k - Min_k k)"
proof -
  define d where "d = b - a"
  have d: "0 < d" "a + d = b" "b - d = a" using ab(1) by (simp_all add: d_def)
  have "\<bar>b - a\<bar> < 2 ^ 53" using ab two_53 by linarith
  then have r: "f64_sub (Max_k k) (Min_k k) = Some (of_int d * pow2 e)"
    unfolding mn mx d_def using e by (rule f64_sub_grid)
  have "- (2 ^ 52) < n" using n by linarith
  with wrap_up_f64_grid[OF e d(1), of a n] ab d(2)
  obtain m1 where m1: "0 \<le> m1"
    "wrap_up_f64 (Some (of_int d * pow2 e)) (of_int a * pow2 e) (of_int n * pow2 e)
       = Some (Inr (of_int (n + m1 * d) * pow2 e))"
    "a \<le> n + m1 * d" "if n < a then n + m1 * d < b else m1 = 0"
    by auto
  define n1 where "n1 = n + m1 * d"
  have n1: "n1 < 2 ^ 52"
    using m1(4) n ab(3) by (cases "n < a") (simp_all add: n1_def)
  with wrap_down_f64_grid[OF e d(1), of b n1] ab d(3)
  obtain m2 where m2: "0 \<le> m2"
    "wrap_down_f64 (Some (of_int d * pow2 e)) (of_int b * pow2 e) (of_int n1 * pow2 e)
       = Some (Inr (of_int (n1 - m2 * d) * pow2 e))"
    "n1 - m2 * d \<le> b" "if b < n1 then a < n1 - m2 * d else m2 = 0"
    by auto
  define n2 where "n2 = n1 - m2 * d"
  have lo: "a \<le> n2"
    using m2(4) m1(3) by (cases "b < n1") (simp_all add: n1_def n2_def)
  have hi: "n2 \<le> b" using m2(3) by (simp add: n2_def)
  from SetValue_f64_wrapping_result[OF w, of v "of_int n1 * pow2 e" "of_int n2 * pow2 e"]
  obtain k' where k': "SetValue_f64 k v = Some (Inr k')" "Value k' = of_int n2 * pow2 e"
    using m1(2) m2(2) r by (auto simp add: mn mx v n1_def n2_def)
  have "n2 = n + (m1 - m2) * d" by (simp add: n1_def n2_def algebra_simps)
  then have "(of_int n2 :: real) = of_int (n + (m1 - m2) * d)" by (simp only:)
  then have "(of_int n2 :: real) = of_int n + of_int (m1 - m2) * of_int d" by simp
  then have "of_int n2 * pow2 e = (of_int n + of_int (m1 - m2) * of_int d) * pow2 e"
    by (simp only:)
  also have "\<dots> = of_int n * pow2 e + of_int (m1 - m2) * (of_int d * pow2 e)"
    by (simp only: distrib_right mult.assoc)
  finally have "of_int n2 * pow2 e
      = of_int n * pow2 e + of_int (m1 - m2) * (of_int d * pow2 e)" .
  also have "of_int d * pow2 e = Max_k k - Min_k k"
    by (simp add: mn mx d_def algebra_simps)
  finally have "Value k' = v + of_int (m1 - m2) * (Max_k k - Min_k k)"
    using k'(2) v by simp
  moreover have "Min_k k \<le> Value k'" using lo by (simp only: mn k'(2) grid_le_iff)
  moreover have "Value k' \<le> Max_k k" using hi by (simp only: mx k'(2) grid_le_iff)
  ultimately show ?thesis using k'(1) by blast
qed

text \<open>
  C3. A wrapping knob with \<open>Min < Max\<close>. The claim has the stored value in
  \<open>[Min, Max]\<close> for every input. With \<open>Min = -7.5\<close>, \<open>Max = 0.500000000000001\<close>
  (\<open>1 / 2 + 9 / 2 ^ 53\<close>) and the input \<open>0.5000000000000011\<close> (\<open>1 / 2 + 10 / 2 ^ 53\<close>), all
  three \<^verbatim>\<open>float64\<close> numbers, the range \<open>Max - Min\<close> is rounded up to \<open>8 + 1 / 2 ^ 49\<close>,
  the second loop subtracts it once, and the code stores \<open>- 15 / 2 - 1 / 2 ^ 50\<close>
  (-7.500000000000001), which is below \<open>Min\<close>; nothing looks at the lower bound after
  the second loop.
\<close>

theorem wrapping_claim_counterexample:
  "is_f64 (- 15 / 2) \<and> is_f64 (1 / 2 + 9 / 2 ^ 53) \<and> is_f64 (1 / 2 + 10 / 2 ^ 53) \<and>
   valueAfter (SetValue_f64
      ((NewRotatingKnob 0 100)\<lparr>Value := 0, Min_k := - 15 / 2, Max_k := 1 / 2 + 9 / 2 ^ 53,
         Wrapping := True\<rparr>) (1 / 2 + 10 / 2 ^ 53)) = Some (- 15 / 2 - 1 / 2 ^ 50) \<and>
   - 15 / 2 - 1 / 2 ^ 50 < (- 15 / 2 :: real)"
proof -
  have f: "is_f64 (- 15 / 2)" "is_f64 (1 / 2 + 9 / 2 ^ 53)" "is_f64 (1 / 2 + 10 / 2 ^ 53)"
    by (simp_all add: is_f64_def f64_eval)
  have c: "f64_sub (4503599627370505 / 9007199254740992) (- 15 / 2)
      = Some (4503599627370497 / 562949953421312)"
    "f64_sub (2251799813685253 / 4503599627370496) (4503599627370497 / 562949953421312)
      = Some (- 8444249301319681 / 1125899906842624)"
    by (simp_all add: f64_eval)
  have "\<exists>k'. SetValue_f64
        ((NewRotatingKnob 0 100)\<lparr>Value := 0, Min_k := - 15 / 2, Max_k := 4503599627370505 / 9007199254740992,
           Wrapping := True\<rparr>) (2251799813685253 / 4503599627370496) = Some (Inr k')
      \<and> Value k' = - 8444249301319681 / 1125899906842624 \<and> Min_k k' = - 15 / 2"
    using c
    by (simp add: SetValue_f64_def andThen_def wrap_up_f64.simps wrap_down_f64.simps
        NewRotatingKnob_def fireOnChanged_def)
  then obtain k' where k': "SetValue_f64
        ((NewRotatingKnob 0 100)\<lparr>Value := 0, Min_k := - 15 / 2, Max_k := 1 / 2 + 9 / 2 ^ 53,
           Wrapping := True\<rparr>) (1 / 2 + 10 / 2 ^ 53) = Some (Inr k')"
    "Value k' = - 8444249301319681 / 1125899906842624" "Min_k k' = - 15 / 2"
    by auto
  have "valueAfter (SetValue_f64
        ((NewRotatingKnob 0 100)\<lparr>Value := 0, Min_k := - 15 / 2, Max_k := 1 / 2 + 9 / 2 ^ 53,
           Wrapping := True\<rparr>) (1 / 2 + 10 / 2 ^ 53)) = Some (- 15 / 2 - 1 / 2 ^ 50)"
    using k'(1,2) by (simp add: valueAfter_def)
  moreover have "- 15 / 2 - 1 / 2 ^ 50 < (- 15 / 2 :: real)" by simp
  ultimately show ?thesis using f by blast
qed

text \<open>
  C3, as the code has it, in \<^verbatim>\<open>float64\<close>. A wrapping knob with \<open>Min < Max\<close>, where
  \<open>Min\<close>, \<open>Max\<close> and the input \<open>v\<close> are integer multiples of one power of two, each less
  than \<open>2 ^ 52\<close> steps from zero (integers below \<open>2 ^ 52\<close> in magnitude, for example), so
  that no step of the loops rounds: \<open>SetValue v\<close> returns, the stored value lies in
  \<open>[Min, Max]\<close> and it is \<open>v\<close> plus an integer multiple of \<open>Max - Min\<close>. On the range
  \<open>[0, 100]\<close>, -10 stores 90 and 110 stores 10.
\<close>

theorem SetValue_wraps:
  assumes "Wrapping k"
  shows "(Min_k k = of_int a * pow2 e \<and> Max_k k = of_int b * pow2 e \<and> v = of_int n * pow2 e
            \<and> a < b \<and> \<bar>a\<bar> < 2 ^ 52 \<and> \<bar>b\<bar> < 2 ^ 52 \<and> \<bar>n\<bar> < 2 ^ 52 \<and> - 1074 \<le> e \<and> e \<le> 970
          \<longrightarrow> (\<exists>k' m. SetValue_f64 k v = Some (Inr k')
                \<and> Min_k k \<le> Value k' \<and> Value k' \<le> Max_k k
                \<and> Value k' = v + of_int m * (Max_k k - Min_k k))) \<and>
         (Min_k k = 0 \<and> Max_k k = 100
          \<longrightarrow> (\<exists>k'. SetValue_f64 k (- 10) = Some (Inr k') \<and> Value k' = 90) \<and>
              (\<exists>k'. SetValue_f64 k 110 = Some (Inr k') \<and> Value k' = 10))"
proof -
  have c: "f64_sub 100 0 = Some 100" "f64_add (- 10) 100 = Some 90"
    "f64_sub 110 100 = Some 10"
    by (simp_all add: f64_eval)
  have "\<exists>k'. SetValue_f64 k (- 10) = Some (Inr k') \<and> Value k' = 90"
    if "Min_k k = 0" "Max_k k = 100"
    using assms that c
    by (simp add: SetValue_f64_def andThen_def wrap_up_f64.simps wrap_down_f64.simps
        fireOnChanged_def)
  moreover have "\<exists>k'. SetValue_f64 k 110 = Some (Inr k') \<and> Value k' = 10"
    if "Min_k k = 0" "Max_k k = 100"
    using assms that c
    by (simp add: SetValue_f64_def andThen_def wrap_up_f64.simps wrap_down_f64.simps
        fireOnChanged_def)
  ultimately show ?thesis using SetValue_f64_grid[OF assms, of a e b v n] by blast
qed

theorem SetValue_wraps_witness:
  "(\<exists>k' m. SetValue_f64 ((NewRotatingKnob 0 100)\<lparr>Wrapping := True\<rparr>) (- 250) = Some (Inr k')
      \<and> 0 \<le> Value k' \<and> Value k' \<le> 100 \<and> Value k' = - 250 + of_int m * 100) \<and>
   (\<exists>k'. SetValue_f64 ((NewRotatingKnob 0 100)\<lparr>Wrapping := True\<rparr>) (- 10) = Some (Inr k')
      \<and> Value k' = 90) \<and>
   (\<exists>k'. SetValue_f64 ((NewRotatingKnob 0 100)\<lparr>Wrapping := True\<rparr>) 110 = Some (Inr k')
      \<and> Value k' = 10)"
proof -
  define K where "K = (NewRotatingKnob 0 100)\<lparr>Wrapping := True\<rparr>"
  have h: "Wrapping K" "Min_k K = 0" "Max_k K = 100"
    by (simp_all add: K_def NewRotatingKnob_def)
  have g: "Min_k K = of_int 0 * pow2 0 \<and> Max_k K = of_int 100 * pow2 0
      \<and> (- 250::real) = of_int (- 250) * pow2 0
      \<and> (0::int) < 100 \<and> \<bar>0::int\<bar> < 2 ^ 52 \<and> \<bar>100::int\<bar> < 2 ^ 52 \<and> \<bar>- 250::int\<bar> < 2 ^ 52
      \<and> - 1074 \<le> (0::int) \<and> (0::int) \<le> 970"
    by (simp add: h pow2_def)
  have "(\<exists>k' m. SetValue_f64 K (- 250) = Some (Inr k')
      \<and> Min_k K \<le> Value k' \<and> Value k' \<le> Max_k K
      \<and> Value k' = - 250 + of_int m * (Max_k K - Min_k K)) \<and>
    (\<exists>k'. SetValue_f64 K (- 10) = Some (Inr k') \<and> Value k' = 90) \<and>
    (\<exists>k'. SetValue_f64 K 110 = Some (Inr k') \<and> Value k' = 10)"
    using SetValue_wraps[OF h(1), of 0 0 100 "- 250" "- 250"] g h(2,3) by blast
  then have "(\<exists>k' m. SetValue_f64 K (- 250) = Some (Inr k')
      \<and> 0 \<le> Value k' \<and> Value k' \<le> 100 \<and> Value k' = - 250 + of_int m * 100) \<and>
    (\<exists>k'. SetValue_f64 K (- 10) = Some (Inr k') \<and> Value k' = 90) \<and>
    (\<exists>k'. SetValue_f64 K 110 = Some (Inr k') \<and> Value k' = 10)"
    by (simp add: h(2,3))
  then show ?thesis unfolding K_def by simp
qed

section \<open>The angle of a pointer position\<close>

lemmas f32_eval = f32_round_def f32_half_def f32_sub_def signedOf_def ilog2_def ilog2_nat.simps
  pow2_def roundToEven_def Let_def

text \<open>\<open>Pi\<close> radians are 180 degrees: \<^verbatim>\<open>radians * 180 / math.Pi\<close> rounds the product
  up and the quotient back to 180.\<close>

lemma angle_constants:
  "f64_round (pi_f64 * 180) = Some (4974073419394997 / 2 ^ 43)"
  "f64_round (- (pi_f64 * 180)) = Some (- (4974073419394997 / 2 ^ 43))"
  "f64_round (4974073419394997 / 2 ^ 43 / pi_f64) = Some 180"
  "f64_round (- (4974073419394997 / 2 ^ 43) / pi_f64) = Some (- 180)"
  by (simp_all add: pi_f64_def f64_eval)

lemma is_f64_constants:
  "is_f64 0" "is_f64 180" "is_f64 360" "is_f64 (- 180)" "is_f64 1024" "is_f64 (- 1024)"
  "is_f64 pi_f64" "is_f64 (- pi_f64)" "is_f64 (pi_f64 / 2)" "is_f64 (- (pi_f64 / 2))"
  by (simp_all add: is_f64_def pi_f64_def f64_eval)

lemma pi_f64_bounds: "3 < pi_f64" "pi_f64 < 4"
  by (simp_all add: pi_f64_def)

text \<open>The arctangent of a small positive number is between its half and itself.\<close>

lemma arctan_small:
  assumes "0 < t" and "t \<le> 1"
  shows "t / 2 \<le> arctan t \<and> arctan t \<le> t"
proof -
  have "\<exists>z. 0 < z \<and> z < t \<and> arctan t - arctan 0 = (t - 0) * inverse (1 + z\<^sup>2)"
    using assms(1) by (intro MVT2) (simp_all add: DERIV_arctan)
  then obtain z where z: "0 < z" "z < t" "arctan t = t * inverse (1 + z\<^sup>2)" by auto
  have "z\<^sup>2 \<le> 1" using z(1,2) assms(2) by (simp add: power_le_one_iff)
  then have w: "1 \<le> 1 + z\<^sup>2" "1 + z\<^sup>2 \<le> 2" "0 < 1 + z\<^sup>2"
    using zero_le_power2[of z] by linarith+
  have "inverse 2 \<le> inverse (1 + z\<^sup>2)" using w(2,3) by (rule le_imp_inverse_le)
  moreover have "inverse (1 + z\<^sup>2) \<le> inverse 1" using w(1) by (rule le_imp_inverse_le) simp
  ultimately have "1 / 2 \<le> inverse (1 + z\<^sup>2)" "inverse (1 + z\<^sup>2) \<le> 1"
    by simp_all
  then have "t * (1 / 2) \<le> t * inverse (1 + z\<^sup>2)" "t * inverse (1 + z\<^sup>2) \<le> t * 1"
    using assms(1) by (simp_all only: mult_le_cancel_left_pos)
  then show ?thesis using z(3) by simp
qed


text \<open>\<^verbatim>\<open>math.Atan2\<close> returns at most \<open>Pi\<close> in magnitude when \<^verbatim>\<open>math.Atan\<close> does, the
  conversion to degrees returns at most 180 in magnitude, and a negative angle plus 360
  is at most 360 after rounding.\<close>

lemma Atan2_f64_range:
  assumes "\<forall>z. \<bar>atan z\<bar> \<le> pi_f64"
  shows "\<exists>r. Atan2_f64 atan y x = Some (Inr r) \<and> \<bar>r\<bar> \<le> pi_f64"
proof -
  define q where "q = (case f64_div (val y) (val x) of
      None \<Rightarrow> if val y / val x < 0 then - (pi_f64 / 2) else pi_f64 / 2
    | Some z \<Rightarrow> if z = 0 then 0 else atan z)"
  have q: "\<bar>q\<bar> \<le> pi_f64"
    using assms pi_f64_bounds by (auto simp: q_def split: option.splits)
  have up: "\<exists>r. f64_add q pi_f64 = Some r \<and> \<bar>r\<bar> \<le> pi_f64" if "q \<le> 0"
  proof -
    have "0 \<le> q + pi_f64" "q + pi_f64 \<le> pi_f64" using q that by linarith+
    then obtain r where "f64_round (q + pi_f64) = Some r" "0 \<le> r" "r \<le> pi_f64"
      using f64_round_between[OF is_f64_constants(1) is_f64_constants(7)] by blast
    then show ?thesis by (simp add: f64_add_def)
  qed
  have down: "\<exists>r. f64_sub q pi_f64 = Some r \<and> \<bar>r\<bar> \<le> pi_f64" if "\<not> q \<le> 0"
  proof -
    have "- pi_f64 \<le> q - pi_f64" "q - pi_f64 \<le> 0" using q that by linarith+
    then obtain r where "f64_round (q - pi_f64) = Some r" "- pi_f64 \<le> r" "r \<le> 0"
      using f64_round_between[OF is_f64_constants(8) is_f64_constants(1)] by blast
    then show ?thesis by (simp add: f64_sub_def)
  qed
  show ?thesis
  proof (cases "val y = 0 \<or> val x = 0")
    case True
    then show ?thesis using pi_f64_bounds by (auto simp: Atan2_f64_def Copysign_def)
  next
    case False
    then have "Atan2_f64 atan y x =
        (if val x < 0 then (if q \<le> 0 then num (f64_add q pi_f64) else num (f64_sub q pi_f64))
         else Some (Inr q))"
      by (simp add: Atan2_f64_def Let_def q_def)
    then show ?thesis using up down q by (auto simp: num_def)
  qed
qed

lemma degrees_range:
  assumes "\<bar>r\<bar> \<le> pi_f64"
  shows "\<exists>d0 d. f64_mul r 180 = Some d0 \<and> f64_div d0 pi_f64 = Some d \<and> - 180 \<le> d \<and> d \<le> 180"
proof -
  have b: "- (pi_f64 * 180) \<le> r * 180" "r * 180 \<le> pi_f64 * 180" using assms by linarith+
  then have "- 1024 \<le> r * 180" "r * 180 \<le> 1024" using pi_f64_bounds by linarith+
  then obtain d0 where d0: "f64_round (r * 180) = Some d0"
    using f64_round_between[OF is_f64_constants(6) is_f64_constants(5)] by blast
  have u: "d0 \<le> 4974073419394997 / 2 ^ 43"
    using f64_round_mono[OF b(2) d0 angle_constants(1)] .
  have l: "- (4974073419394997 / 2 ^ 43) \<le> d0"
    using f64_round_mono[OF b(1) angle_constants(2) d0] .
  have pos: "0 < pi_f64" using pi_f64_bounds by linarith
  have c: "- (4974073419394997 / 2 ^ 43) / pi_f64 \<le> d0 / pi_f64"
    "d0 / pi_f64 \<le> 4974073419394997 / 2 ^ 43 / pi_f64"
    using u l pos by (simp_all only: divide_right_mono less_imp_le)
  have "(4974073419394997 / 2 ^ 43 / pi_f64 :: real) \<le> 1024"
    "- 1024 \<le> (- (4974073419394997 / 2 ^ 43) / pi_f64 :: real)"
    by (simp_all add: pi_f64_def)
  then have "- 1024 \<le> d0 / pi_f64" "d0 / pi_f64 \<le> 1024" using c by linarith+
  then obtain d where d: "f64_round (d0 / pi_f64) = Some d"
    using f64_round_between[OF is_f64_constants(6) is_f64_constants(5)] by blast
  have "d \<le> 180" using f64_round_mono[OF c(2) d angle_constants(3)] .
  moreover have "- 180 \<le> d" using f64_round_mono[OF c(1) angle_constants(4) d] .
  ultimately show ?thesis using d0 d pos by (simp add: f64_mul_def f64_div_def)
qed

lemma normalize_range:
  assumes "- 180 \<le> d" and "d \<le> 180"
  shows "\<exists>a. (if d < 0 then num (f64_add d 360) else Some (Inr d)) = Some (Inr a)
    \<and> 0 \<le> a \<and> a \<le> 360"
proof (cases "d < 0")
  case True
  then have "180 \<le> d + 360" "d + 360 \<le> 360" using assms by linarith+
  then obtain a where "f64_round (d + 360) = Some a" "180 \<le> a" "a \<le> 360"
    using f64_round_between[OF is_f64_constants(2) is_f64_constants(3)] by blast
  then show ?thesis using True by (simp add: f64_add_def num_def)
next
  case False
  then show ?thesis using assms by simp
qed

text \<open>The angle, from the radians on.\<close>

lemma angle_of_radians:
  assumes "f32_half (Width k) = Some centerX" and "f32_half (Height k) = Some centerY"
    and "f32_sub (X32 pos) centerX = Some dx" and "f32_sub (Y32 pos) centerY = Some dy"
    and "Atan2_f64 atan dx (neg dy) = Some (Inr r)"
    and "f64_mul r 180 = Some d0" and "f64_div d0 pi_f64 = Some d"
  shows "getAngleFromPoint_f64 atan k pos
    = (if d < 0 then num (f64_add d 360) else Some (Inr d))"
  using assms by (simp add: getAngleFromPoint_f64_def andThen_def num_def)

lemma centre_radians:
  assumes "val dx = 0"
  shows "Atan2_f64 atan dx NegZero = Some (Inr (if dx = NegZero then - pi_f64 else pi_f64))"
    and "Atan2_f64 atan dx (Fin 0) = Some (Inr 0)"
  using assms pi_f64_bounds by (cases dx; simp add: Atan2_f64_def Copysign_def)+

lemma getAngleFromPoint_range:
  assumes "\<forall>z. \<bar>atan z\<bar> \<le> pi_f64"
    and "f32_half (Width k) = Some centerX" and "f32_half (Height k) = Some centerY"
    and "f32_sub (X32 pos) centerX = Some dx" and "f32_sub (Y32 pos) centerY = Some dy"
  shows "\<exists>a. getAngleFromPoint_f64 atan k pos = Some (Inr a) \<and> 0 \<le> a \<and> a \<le> 360"
proof -
  obtain r where r: "Atan2_f64 atan dx (neg dy) = Some (Inr r)" "\<bar>r\<bar> \<le> pi_f64"
    using Atan2_f64_range[OF assms(1)] by blast
  obtain d0 d where d: "f64_mul r 180 = Some d0" "f64_div d0 pi_f64 = Some d"
    "- 180 \<le> d" "d \<le> 180"
    using degrees_range[OF r(2)] by blast
  show ?thesis
    using normalize_range[OF d(3,4)] angle_of_radians[OF assms(2-5) r(1) d(1,2)] by simp
qed

lemma getAngleFromPoint_centre:
  assumes "f32_half (Width k) = Some centerX" and "f32_half (Height k) = Some centerY"
    and "f32_sub (X32 pos) centerX = Some dx" and "f32_sub (Y32 pos) centerY = Some dy"
    and "val dx = 0"
  shows "dy = Fin 0 \<longrightarrow> getAngleFromPoint_f64 atan k pos = Some (Inr 180)"
    and "dy = NegZero \<longrightarrow> getAngleFromPoint_f64 atan k pos = Some (Inr 0)"
proof -
  have c: "f64_mul pi_f64 180 = Some (4974073419394997 / 2 ^ 43)"
    "f64_mul (- pi_f64) 180 = Some (- (4974073419394997 / 2 ^ 43))"
    "f64_div (4974073419394997 / 2 ^ 43) pi_f64 = Some 180"
    "f64_div (- (4974073419394997 / 2 ^ 43)) pi_f64 = Some (- 180)"
    "f64_add (- 180) 360 = Some 180"
    "f64_mul 0 180 = Some 0" "f64_div 0 pi_f64 = Some 0"
    using angle_constants pi_f64_bounds is_f64_constants(2)
    by (simp_all add: f64_mul_def f64_div_def f64_add_def is_f64_def f64_round_0)
  show "dy = Fin 0 \<longrightarrow> getAngleFromPoint_f64 atan k pos = Some (Inr 180)"
  proof
    assume dy: "dy = Fin 0"
    show "getAngleFromPoint_f64 atan k pos = Some (Inr 180)"
    proof (cases "dx = NegZero")
      case True
      then have "Atan2_f64 atan dx (neg dy) = Some (Inr (- pi_f64))"
        using centre_radians(1)[OF assms(5)] dy by simp
      from angle_of_radians[OF assms(1-4) this c(2,4)] show ?thesis by (simp add: c(5) num_def)
    next
      case False
      then have "Atan2_f64 atan dx (neg dy) = Some (Inr pi_f64)"
        using centre_radians(1)[OF assms(5)] dy by simp
      from angle_of_radians[OF assms(1-4) this c(1,3)] show ?thesis by simp
    qed
  qed
  show "dy = NegZero \<longrightarrow> getAngleFromPoint_f64 atan k pos = Some (Inr 0)"
  proof
    assume dy: "dy = NegZero"
    then have "Atan2_f64 atan dx (neg dy) = Some (Inr 0)"
      using centre_radians(2)[OF assms(5)] by simp
    from angle_of_radians[OF assms(1-4) this c(6,7)] show
      "getAngleFromPoint_f64 atan k pos = Some (Inr 0)" by simp
  qed
qed


text \<open>Radians just below zero: the degrees are negative and so small that
  \<^verbatim>\<open>degrees += 360\<close> rounds to 360.\<close>

lemma tiny_negative_radians:
  assumes "- (1 / 2 ^ 60) \<le> r" and "r \<le> - (1 / 2 ^ 200)"
  shows "\<exists>d0 d. f64_mul r 180 = Some d0 \<and> f64_div d0 pi_f64 = Some d \<and> d < 0
    \<and> f64_add d 360 = Some 360"
proof -
  have f: "is_f64 (- (1 / 2 ^ 52))" "is_f64 (- (1 / 2 ^ 200))" "is_f64 (- (1 / 2 ^ 202))"
    "f64_round (360 - 1 / 2 ^ 52) = Some 360" "f64_round 360 = Some 360"
    by (simp_all add: is_f64_def f64_eval)
  have "- (1 / 2 ^ 52) \<le> r * 180" "r * 180 \<le> - (1 / 2 ^ 200)" using assms by simp_all
  then obtain d0 where d0: "f64_round (r * 180) = Some d0" "- (1 / 2 ^ 52) \<le> d0"
    "d0 \<le> - (1 / 2 ^ 200)"
    using f64_round_between[OF f(1,2)] by blast
  have "d0 \<le> d0 / pi_f64" "d0 / pi_f64 \<le> d0 / 4"
    using d0(3) pi_f64_bounds by (simp_all add: field_simps)
  then have "- (1 / 2 ^ 52) \<le> d0 / pi_f64" "d0 / pi_f64 \<le> - (1 / 2 ^ 202)"
    using d0(2,3) by simp_all
  then obtain d where d: "f64_round (d0 / pi_f64) = Some d" "- (1 / 2 ^ 52) \<le> d"
    "d \<le> - (1 / 2 ^ 202)"
    using f64_round_between[OF f(1,3)] by blast
  have neg: "d < 0" using d(3) by simp
  have "180 \<le> d + 360" "d + 360 \<le> 360" "360 - 1 / 2 ^ 52 \<le> d + 360" using d(2) neg by simp_all
  then obtain a where a: "f64_round (d + 360) = Some a" "a \<le> 360"
    using f64_round_between[OF is_f64_constants(2) is_f64_constants(3)] by blast
  have "360 \<le> a" using f64_round_mono[OF \<open>360 - 1 / 2 ^ 52 \<le> d + 360\<close> f(4) a(1)] .
  then have "a = 360" using a(2) by simp
  then show ?thesis
    using d0(1) d(1) neg a(1) pi_f64_bounds by (simp add: f64_mul_def f64_div_def f64_add_def)
qed

text \<open>
  C5. The claim has the angle in the half-open interval \<open>[0, 360)\<close>, and 0 at the
  centre of the knob. At the centre of a knob of 100 by 100, \<open>dx\<close> and \<open>dy\<close> are \<open>+0\<close>,
  the code calls \<^verbatim>\<open>math.Atan2\<close> with \<open>+0\<close> and \<open>-dy = -0\<close>, which is \<open>Pi\<close>, and returns
  180. On a knob of size zero the point \<open>(- 2 ^ - 100, -1)\<close>, straight above the centre
  and a hair to the left, has a small negative arctangent, and the code returns 360.
  The arctangent is the exact one here; the value of the library at \<open>- 2 ^ - 100\<close> is
  between the same bounds.
\<close>

theorem angle_claim_counterexample:
  "getAngleFromPoint_f64 arctan ((NewRotatingKnob 0 100)\<lparr>Width := 100, Height := 100\<rparr>)
      \<lparr>X32 = Fin 50, Y32 = Fin 50\<rparr> = Some (Inr 180) \<and>
   getAngleFromPoint_f64 arctan (NewRotatingKnob 0 100)
      \<lparr>X32 = Fin (- (1 / 2 ^ 100)), Y32 = Fin (- 1)\<rparr> = Some (Inr 360)"
proof -
  define K where "K = (NewRotatingKnob 0 100)\<lparr>Width := 100, Height := 100\<rparr>"
  have h: "f32_half (Width K) = Some (Fin 50)" "f32_half (Height K) = Some (Fin 50)"
    "f32_sub (Fin 50) (Fin 50) = Some (Fin 0)"
    by (simp_all add: K_def NewRotatingKnob_def f32_eval)
  have "getAngleFromPoint_f64 arctan K \<lparr>X32 = Fin 50, Y32 = Fin 50\<rparr> = Some (Inr 180)"
    using getAngleFromPoint_centre(1)[of K "Fin 50" "Fin 50" "\<lparr>X32 = Fin 50, Y32 = Fin 50\<rparr>"
        "Fin 0" "Fin 0" arctan] h by simp
  then have one: "getAngleFromPoint_f64 arctan ((NewRotatingKnob 0 100)\<lparr>Width := 100, Height := 100\<rparr>)
      \<lparr>X32 = Fin 50, Y32 = Fin 50\<rparr> = Some (Inr 180)"
    unfolding K_def .
  define P where "P = \<lparr>X32 = Fin (- (1 / 2 ^ 100)), Y32 = Fin (- 1)\<rparr>"
  have g: "f32_half (Width (NewRotatingKnob 0 100)) = Some (Fin 0)"
    "f32_half (Height (NewRotatingKnob 0 100)) = Some (Fin 0)"
    "f32_sub (X32 P) (Fin 0) = Some (Fin (- (1 / 2 ^ 100)))"
    "f32_sub (Y32 P) (Fin 0) = Some (Fin (- 1))"
    by (simp_all add: P_def NewRotatingKnob_def f32_eval)
  have q: "f64_div (- (1 / 2 ^ 100)) 1 = Some (- (1 / 2 ^ 100))"
    by (simp add: f64_eval)
  have "Atan2_f64 arctan (Fin (- (1 / 2 ^ 100))) (neg (Fin (- 1)))
      = Some (Inr (arctan (- (1 / 2 ^ 100))))"
    using q by (simp add: Atan2_f64_def)
  moreover have b: "- (1 / 2 ^ 60) \<le> arctan (- (1 / 2 ^ 100))"
    "arctan (- (1 / 2 ^ 100)) \<le> - (1 / 2 ^ 200)"
    using arctan_small[of "1 / 2 ^ 100"] by (simp_all add: arctan_minus)
  moreover obtain d0 d where "f64_mul (arctan (- (1 / 2 ^ 100))) 180 = Some d0"
    "f64_div d0 pi_f64 = Some d" "d < 0" "f64_add d 360 = Some 360"
    using tiny_negative_radians[OF b] by blast
  ultimately have "getAngleFromPoint_f64 arctan (NewRotatingKnob 0 100) P = Some (Inr 360)"
    using angle_of_radians[OF g, of arctan "arctan (- (1 / 2 ^ 100))" d0 d] by (simp add: num_def)
  then show ?thesis using one unfolding P_def by simp
qed

text \<open>
  C5, as the code has it. For an arctangent of the library that is at most \<open>Pi\<close> in
  magnitude, and a point whose differences \<open>dx\<close>, \<open>dy\<close> to the centre are finite
  \<^verbatim>\<open>float32\<close> numbers, \<^verbatim>\<open>getAngleFromPoint\<close> returns an angle in the closed interval
  \<open>[0, 360]\<close>. At the centre, where \<open>dx\<close> is a zero, the angle is 180 when \<open>dy\<close> is
  \<open>+0\<close>, and 0 when \<open>dy\<close> is \<open>-0\<close> (the pointer at \<open>-0\<close> over a centre at \<open>+0\<close>).
\<close>

theorem getAngleFromPoint_angle:
  assumes "\<forall>z. \<bar>atan z\<bar> \<le> pi_f64"
    and "f32_half (Width k) = Some centerX" and "f32_half (Height k) = Some centerY"
    and "f32_sub (X32 pos) centerX = Some dx" and "f32_sub (Y32 pos) centerY = Some dy"
  shows "(\<exists>a. getAngleFromPoint_f64 atan k pos = Some (Inr a) \<and> 0 \<le> a \<and> a \<le> 360) \<and>
         (val dx = 0 \<and> dy = Fin 0 \<longrightarrow> getAngleFromPoint_f64 atan k pos = Some (Inr 180)) \<and>
         (val dx = 0 \<and> dy = NegZero \<longrightarrow> getAngleFromPoint_f64 atan k pos = Some (Inr 0))"
  using getAngleFromPoint_range[OF assms] getAngleFromPoint_centre[OF assms(2-5)] by blast

theorem getAngleFromPoint_angle_witness:
  "\<exists>a. getAngleFromPoint_f64 arctan ((NewRotatingKnob 0 100)\<lparr>Width := 100, Height := 100\<rparr>)
      \<lparr>X32 = Fin 80, Y32 = Fin 20\<rparr> = Some (Inr a) \<and> 0 \<le> a \<and> a \<le> 360"
proof -
  define K where "K = (NewRotatingKnob 0 100)\<lparr>Width := 100, Height := 100\<rparr>"
  define P where "P = \<lparr>X32 = Fin 80, Y32 = Fin 20\<rparr>"
  have h: "f32_half (Width K) = Some (Fin 50)" "f32_half (Height K) = Some (Fin 50)"
    "f32_sub (X32 P) (Fin 50) = Some (Fin 30)" "f32_sub (Y32 P) (Fin 50) = Some (Fin (- 30))"
    by (simp_all add: K_def P_def NewRotatingKnob_def f32_eval)
  have "\<bar>arctan z\<bar> \<le> pi_f64" for z
    using arctan_bounded[of z] pi_less_4 pi_f64_bounds by (simp add: abs_le_iff)
  then have a: "\<forall>z. \<bar>arctan z\<bar> \<le> pi_f64" by blast
  have "\<exists>a. getAngleFromPoint_f64 arctan K P = Some (Inr a) \<and> 0 \<le> a \<and> a \<le> 360"
    using getAngleFromPoint_angle[OF a h] by blast
  then show ?thesis unfolding K_def P_def .
qed

end
